theory Spec2Isabelle
  imports Main
begin

section \<open>Characters and Python string primitives\<close>

text \<open>
  Python \<open>str\<close> values are modelled as \<open>string\<close>; a \<open>char\<close> stands for a code point
  below 256.  The character classes below are the ones the regular expressions and string
  methods of \<open>email_utils.py\<close> and \<open>web_utils.py\<close> use, restricted to that range.
\<close>

definition in_range :: "char \<Rightarrow> char \<Rightarrow> char \<Rightarrow> bool" where
  "in_range lo hi c = ((of_char lo :: nat) \<le> of_char c \<and> (of_char c :: nat) \<le> of_char hi)"

definition is_digit :: "char \<Rightarrow> bool" where
  \<comment> \<open>\<open>\d\<close>: below code point 256 the only decimal digits are \<open>0\<close>..\<open>9\<close>\<close>
  "is_digit c = in_range CHR ''0'' CHR ''9'' c"

definition py_slice :: "nat \<Rightarrow> nat \<Rightarrow> 'a list \<Rightarrow> 'a list" where
  \<comment> \<open>\<open>xs[i:j]\<close> for \<open>0 \<le> i \<le> j\<close>\<close>
  "py_slice i j xs = take (j - i) (drop i xs)"

definition is_lower_az :: "char \<Rightarrow> bool" where
  \<comment> \<open>the class \<open>[a-z]\<close>\<close>
  "is_lower_az c = in_range CHR ''a'' CHR ''z'' c"

definition is_upper_az :: "char \<Rightarrow> bool" where
  \<comment> \<open>the class \<open>[A-Z]\<close>\<close>
  "is_upper_az c = in_range CHR ''A'' CHR ''Z'' c"

definition is_alpha_az :: "char \<Rightarrow> bool" where
  \<comment> \<open>the class \<open>[a-zA-Z]\<close>\<close>
  "is_alpha_az c = (is_lower_az c \<or> is_upper_az c)"

definition is_space :: "char \<Rightarrow> bool" where
  \<comment> \<open>whitespace of \<open>str.split()\<close> and of \<open>\s\<close> below code point 256:
      TAB, LF, VT, FF, CR, the separators 0x1C..0x1F, space, NEL 0x85 and NBSP 0xA0\<close>
  "is_space c = (in_range (CHR 0x09) (CHR 0x0D) c \<or> in_range (CHR 0x1C) (CHR 0x20) c
                   \<or> c = CHR 0x85 \<or> c = CHR 0xA0)"

definition lower_char :: "char \<Rightarrow> char" where
  \<comment> \<open>\<open>str.lower()\<close> on one code point below 256: \<open>A\<close>..\<open>Z\<close> and the Latin-1 capitals
      0xC0..0xDE (0xD7, the multiplication sign, apart) move up by 32, which sets
      bit 5 (it is clear in all of them)\<close>
  "lower_char c =
     (if is_upper_az c \<or> (in_range (CHR 0xC0) (CHR 0xDE) c \<and> c \<noteq> CHR 0xD7)
      then (case c of Char b0 b1 b2 b3 b4 b5 b6 b7 \<Rightarrow> Char b0 b1 b2 b3 b4 True b6 b7)
      else c)"

definition py_lower :: "string \<Rightarrow> string" where
  "py_lower s = map lower_char s"

fun split_go :: "string \<Rightarrow> string \<Rightarrow> string list" where
  \<comment> \<open>the scan of \<open>str.split()\<close>: \<open>cur\<close> is the token being read\<close>
  "split_go cur [] = (if cur = [] then [] else [cur])"
| "split_go cur (c # cs) =
     (if is_space c then (if cur = [] then split_go [] cs else cur # split_go [] cs)
      else split_go (cur @ [c]) cs)"

definition py_split :: "string \<Rightarrow> string list" where
  \<comment> \<open>\<open>s.split()\<close>: the maximal runs of non-whitespace characters\<close>
  "py_split s = split_go [] s"

fun split_sep :: "char \<Rightarrow> string \<Rightarrow> string list" where
  \<comment> \<open>\<open>s.split(sep)\<close> for a one-character separator: always at least one part\<close>
  "split_sep sep [] = [[]]"
| "split_sep sep (c # cs) =
     (if c = sep then [] # split_sep sep cs
      else (case split_sep sep cs of [] \<Rightarrow> [[c]] | p # ps \<Rightarrow> (c # p) # ps))"

fun starts_with :: "string \<Rightarrow> string \<Rightarrow> bool" where
  "starts_with [] s = True"
| "starts_with (p # ps) [] = False"
| "starts_with (p # ps) (c # cs) = (p = c \<and> starts_with ps cs)"

fun contains :: "string \<Rightarrow> string \<Rightarrow> bool" where
  \<comment> \<open>\<open>needle in s\<close> on strings\<close>
  "contains needle [] = (needle = [])"
| "contains needle (c # cs) = (starts_with needle (c # cs) \<or> contains needle cs)"

datatype py_exn = ValueError | IndexError | Exception

section \<open>A backtracking matcher for the regular expressions of the source\<close>

text \<open>
  The patterns of the source use character classes, literals, concatenation, greedy
  optional parts, greedy bounded or unbounded repetition of a character class, capture
  groups and the anchors \<open>^\<close> and \<open>$\<close>.  The matcher is the usual backtracking one in
  continuation-passing style: a greedy construct tries its longest alternative first and
  falls back when the rest of the pattern fails, as Python's \<open>re\<close> does.  The position
  \<open>n\<close> counts the characters before the rest \<open>s\<close> of the subject.
\<close>

datatype re =
    Eps
  | Chr char
  | Lit string
  | Cls "char \<Rightarrow> bool"
  | Seq re re
  | Opt re
  | Rep "char \<Rightarrow> bool" nat "nat option"
  | Grp nat re
  | Bol
  | Eol

type_synonym caps = "(nat \<times> string) list"

fun rep :: "(char \<Rightarrow> bool) \<Rightarrow> nat \<Rightarrow> nat option \<Rightarrow> nat \<Rightarrow> string
              \<Rightarrow> (nat \<Rightarrow> string \<Rightarrow> 'a option) \<Rightarrow> 'a option" where
  \<comment> \<open>\<open>[c]{lo,hi}\<close>, greedy: one more character first, the shorter run on failure\<close>
  "rep c lo hi n [] k = (if lo = 0 then k n [] else None)"
| "rep c lo hi n (x # xs) k =
     (if c x \<and> hi \<noteq> Some 0
      then (case rep c (lo - 1) (map_option (\<lambda>h. h - 1) hi) (Suc n) xs k of
              Some r \<Rightarrow> Some r
            | None \<Rightarrow> if lo = 0 then k n (x # xs) else None)
      else if lo = 0 then k n (x # xs) else None)"

fun re_go :: "re \<Rightarrow> nat \<Rightarrow> string \<Rightarrow> caps \<Rightarrow> (nat \<Rightarrow> string \<Rightarrow> caps \<Rightarrow> 'a option)
            \<Rightarrow> 'a option" where
  "re_go Eps n s cp k = k n s cp"
| "re_go (Chr c) n s cp k =
     (case s of [] \<Rightarrow> None | x # xs \<Rightarrow> if x = c then k (Suc n) xs cp else None)"
| "re_go (Lit l) n s cp k =
     (if starts_with l s then k (n + length l) (drop (length l) s) cp else None)"
| "re_go (Cls c) n s cp k =
     (case s of [] \<Rightarrow> None | x # xs \<Rightarrow> if c x then k (Suc n) xs cp else None)"
| "re_go (Seq a b) n s cp k = re_go a n s cp (\<lambda>n' s' cp'. re_go b n' s' cp' k)"
| "re_go (Opt a) n s cp k = (case re_go a n s cp k of Some r \<Rightarrow> Some r | None \<Rightarrow> k n s cp)"
| "re_go (Rep c lo hi) n s cp k = rep c lo hi n s (\<lambda>n' s'. k n' s' cp)"
| "re_go (Grp i a) n s cp k = re_go a n s cp (\<lambda>n' s' cp'. k n' s' ((i, take (n' - n) s) # cp'))"
| "re_go Bol n s cp k = (if n = 0 then k n s cp else None)"
| "re_go Eol n s cp k = (if s = [] \<or> s = [CHR 0x0A] then k n s cp else None)"

fun seq :: "re list \<Rightarrow> re" where
  "seq [] = Eps"
| "seq [r] = r"
| "seq (r # rs) = Seq r (seq rs)"

definition match_at :: "re \<Rightarrow> nat \<Rightarrow> string \<Rightarrow> (nat \<times> caps) option" where
  \<comment> \<open>a match that starts at position \<open>n\<close>: its end position and its groups\<close>
  "match_at r n s = re_go r n s [] (\<lambda>n' s' cp. Some (n', cp))"

definition re_match :: "re \<Rightarrow> string \<Rightarrow> (string \<times> caps) option" where
  \<comment> \<open>\<open>re.match(r, s)\<close>: a match at the start of \<open>s\<close> only\<close>
  "re_match r s = (case match_at r 0 s of None \<Rightarrow> None | Some (e, cp) \<Rightarrow> Some (take e s, cp))"

fun search_from :: "re \<Rightarrow> nat \<Rightarrow> string \<Rightarrow> (string \<times> caps) option" where
  "search_from r n [] =
     (case match_at r n [] of None \<Rightarrow> None | Some (e, cp) \<Rightarrow> Some ([], cp))"
| "search_from r n (x # xs) =
     (case match_at r n (x # xs) of
        None \<Rightarrow> search_from r (Suc n) xs
      | Some (e, cp) \<Rightarrow> Some (take (e - n) (x # xs), cp))"

definition re_search :: "re \<Rightarrow> string \<Rightarrow> (string \<times> caps) option" where
  \<comment> \<open>\<open>re.search(r, s)\<close>: the match at the leftmost position that has one\<close>
  "re_search r s = search_from r 0 s"

fun findall_go :: "re \<Rightarrow> nat \<Rightarrow> nat \<Rightarrow> string \<Rightarrow> (string \<times> caps) list" where
  \<comment> \<open>the scan of \<open>re.findall\<close>: \<open>skip\<close> characters still belong to the previous match\<close>
  "findall_go r n skip [] =
     (if skip = 0 then (case match_at r n [] of None \<Rightarrow> [] | Some (e, cp) \<Rightarrow> [([], cp)])
      else [])"
| "findall_go r n skip (x # xs) =
     (if 0 < skip then findall_go r (Suc n) (skip - 1) xs
      else (case match_at r n (x # xs) of
              None \<Rightarrow> findall_go r (Suc n) 0 xs
            | Some (e, cp) \<Rightarrow>
                (take (e - n) (x # xs), cp) # findall_go r (Suc n) (e - n - 1) xs))"

definition re_findall :: "re \<Rightarrow> string \<Rightarrow> (string \<times> caps) list" where
  \<comment> \<open>the non-overlapping matches from left to right, each with its groups\<close>
  "re_findall r s = findall_go r 0 0 s"

definition match_group :: "caps \<Rightarrow> nat \<Rightarrow> string option" where
  \<comment> \<open>\<open>match.group(i)\<close>: \<open>None\<close> for a group that took no part in the match\<close>
  "match_group cp i = map_of cp i"

definition group_or_empty :: "caps \<Rightarrow> nat \<Rightarrow> string" where
  \<comment> \<open>what \<open>re.findall\<close> reports for group \<open>i\<close>: the empty string when it took no part\<close>
  "group_or_empty cp i = (case map_of cp i of None \<Rightarrow> [] | Some t \<Rightarrow> t)"


section \<open>Pattern detection (\<open>EmailExtractor.detect_email_pattern\<close>)\<close>

definition first_initial_last_pattern :: re where
  \<comment> \<open>\<open>^[a-z][a-z]{2,}$\<close>\<close>
  "first_initial_last_pattern = seq [Bol, Cls is_lower_az, Rep is_lower_az 2 None, Eol]"

definition classify_username :: "string \<Rightarrow> string" where
  \<comment> \<open>the \<open>if\<close>/\<open>elif\<close> chain of the second loop\<close>
  "classify_username username =
     (if CHR ''.'' \<in> set username then ''first.last''
      else if CHR ''_'' \<in> set username then ''first_last''
      else if length username \<le> 2 then ''initials''
      else if re_match first_initial_last_pattern username \<noteq> None then ''firstinitiallast''
      else ''unknown'')"

fun parse_emails :: "string list \<Rightarrow> string set \<Rightarrow> string list \<Rightarrow> string set \<times> string list" where
  \<comment> \<open>the first loop: \<open>domains\<close> is a set, \<open>usernames\<close> a list; an email whose split at
      \<open>@\<close> has not exactly two parts is skipped\<close>
  "parse_emails [] domains usernames = (domains, usernames)"
| "parse_emails (email # rest) domains usernames =
     (let parts = split_sep CHR ''@'' email in
      if length parts \<noteq> 2 then parse_emails rest domains usernames
      else parse_emails rest (insert (parts ! 1) domains) (usernames @ [parts ! 0]))"

text \<open>
  A Python \<open>dict\<close> keeps its keys in insertion order, and \<open>max\<close> walks it in that order: it
  is an association list here.  Storing under a key that is present replaces the value in
  place; a new key goes to the end.
\<close>

fun dict_get :: "('k \<times> 'v) list \<Rightarrow> 'k \<Rightarrow> 'v \<Rightarrow> 'v" where
  \<comment> \<open>\<open>d.get(key, default)\<close>\<close>
  "dict_get [] key dflt = dflt"
| "dict_get ((k, v) # d) key dflt = (if k = key then v else dict_get d key dflt)"

fun dict_set :: "('k \<times> 'v) list \<Rightarrow> 'k \<Rightarrow> 'v \<Rightarrow> ('k \<times> 'v) list" where
  \<comment> \<open>\<open>d[key] = value\<close>\<close>
  "dict_set [] key val = [(key, val)]"
| "dict_set ((k, v) # d) key val = (if k = key then (k, val) # d else (k, v) # dict_set d key val)"

fun count_patterns :: "(string \<times> nat) list \<Rightarrow> string list \<Rightarrow> (string \<times> nat) list" where
  \<comment> \<open>the third loop: \<open>pattern_counts[pattern] = pattern_counts.get(pattern, 0) + 1\<close>\<close>
  "count_patterns pattern_counts [] = pattern_counts"
| "count_patterns pattern_counts (pattern # rest) =
     count_patterns (dict_set pattern_counts pattern (dict_get pattern_counts pattern 0 + 1)) rest"

fun max_loop :: "'a \<times> nat \<Rightarrow> ('a \<times> nat) list \<Rightarrow> 'a \<times> nat" where
  \<comment> \<open>\<open>max\<close> keeps its current item unless a later one has a strictly larger key\<close>
  "max_loop best [] = best"
| "max_loop best (item # items) =
     (if snd best < snd item then max_loop item items else max_loop best items)"

definition py_max_by_count :: "('a \<times> nat) list \<Rightarrow> py_exn + ('a \<times> nat)" where
  \<comment> \<open>\<open>max(items, key=lambda x: x[1])\<close>; \<open>max\<close> of an empty sequence raises \<open>ValueError\<close>\<close>
  "py_max_by_count items = (case items of [] \<Rightarrow> Inl ValueError | x # xs \<Rightarrow> Inr (max_loop x xs))"

definition detect_email_pattern :: "string list \<Rightarrow> py_exn + string option" where
  "detect_email_pattern emails =
     (if emails = [] \<or> length emails < 2 then Inr None
      else
        (case parse_emails emails {} [] of (domains, usernames) \<Rightarrow>
           if card domains \<noteq> 1 then Inr None
           else if domains = {} then Inl IndexError \<comment> \<open>\<open>list(domains)[0]\<close>\<close>
           else
             (let patterns = map classify_username usernames;
                  pattern_counts = count_patterns [] patterns
              in case py_max_by_count pattern_counts of
                   Inl e \<Rightarrow> Inl e
                 | Inr most_common \<Rightarrow> Inr (Some (fst most_common)))))"

section \<open>Email synthesis (\<open>EmailExtractor.generate_likely_email\<close>)\<close>

definition not_slash :: "char \<Rightarrow> bool" where
  \<comment> \<open>the class \<open>[^/]\<close>\<close>
  "not_slash c = (c \<noteq> CHR ''/'')"

definition domain_pattern :: re where
  \<comment> \<open>\<open>https?://(?:www\.)?([^/]+)\<close>\<close>
  "domain_pattern =
     seq [Lit ''http'', Opt (Chr CHR ''s''), Lit ''://'', Opt (Lit ''www.''),
          Grp 1 (Rep not_slash 1 None)]"

datatype field = FFirst | FLast | FFirstInitial | FLastInitial | FDomain

datatype piece = Text string | Field field

definition email_formats :: "piece list list" where
  \<comment> \<open>\<open>self.email_formats\<close>; \<open>Field f\<close> is the replacement field \<open>{f}\<close>\<close>
  "email_formats =
     [[Field FFirst, Text ''.'', Field FLast, Text ''@'', Field FDomain],
      [Field FFirstInitial, Field FLast, Text ''@'', Field FDomain],
      [Field FFirst, Text ''@'', Field FDomain],
      [Field FLast, Text ''@'', Field FDomain],
      [Field FFirstInitial, Text ''.'', Field FLast, Text ''@'', Field FDomain],
      [Field FFirst, Field FLastInitial, Text ''@'', Field FDomain],
      [Field FFirst, Text ''_'', Field FLast, Text ''@'', Field FDomain]]"

fun render :: "(field \<Rightarrow> string) \<Rightarrow> piece \<Rightarrow> string" where
  "render args (Text t) = t"
| "render args (Field f) = args f"

definition py_format :: "piece list \<Rightarrow> (field \<Rightarrow> string) \<Rightarrow> string" where
  \<comment> \<open>\<open>format_str.format(first=..., last=..., ...)\<close>\<close>
  "py_format format_str args = concat (map (render args) format_str)"

definition format_args :: "string \<Rightarrow> string \<Rightarrow> string \<Rightarrow> string \<Rightarrow> string \<Rightarrow> field \<Rightarrow> string" where
  "format_args first_name last_name first_initial last_initial domain f =
     (case f of FFirst \<Rightarrow> first_name | FLast \<Rightarrow> last_name | FFirstInitial \<Rightarrow> first_initial
      | FLastInitial \<Rightarrow> last_initial | FDomain \<Rightarrow> domain)"

definition detect_known :: "string list option \<Rightarrow> py_exn + string option" where
  \<comment> \<open>\<open>if known_emails and len(known_emails) > 0: pattern = self.detect_email_pattern(...)\<close>;
      no pattern otherwise\<close>
  "detect_known known_emails =
     (case known_emails of
        None \<Rightarrow> Inr None
      | Some ke \<Rightarrow> if ke \<noteq> [] \<and> 0 < length ke then detect_email_pattern ke else Inr None)"

definition apply_pattern :: "string option \<Rightarrow> string \<Rightarrow> string \<Rightarrow> string \<Rightarrow> string \<Rightarrow> string
                               \<Rightarrow> string option" where
  \<comment> \<open>the \<open>if pattern:\<close> block: the email it returns, or \<open>None\<close> when control falls through\<close>
  "apply_pattern pattern first_name last_name first_initial last_initial domain =
     (case pattern of
        None \<Rightarrow> None
      | Some p \<Rightarrow>
          if p = [] then None
          else if p = ''first.last'' then Some (first_name @ ''.'' @ last_name @ ''@'' @ domain)
          else if p = ''first_last'' then Some (first_name @ ''_'' @ last_name @ ''@'' @ domain)
          else if p = ''initials'' then Some (first_initial @ last_initial @ ''@'' @ domain)
          else if p = ''firstinitiallast'' then Some (first_initial @ last_name @ ''@'' @ domain)
          else None)"

definition generate_likely_email ::
    "string \<Rightarrow> string \<Rightarrow> string \<Rightarrow> string list option \<Rightarrow> py_exn + string option" where
  \<comment> \<open>an empty \<open>name\<close> or \<open>company_website\<close> also stands for Python's \<open>None\<close> there\<close>
  "generate_likely_email name company_name company_website known_emails =
     (if name = [] \<or> name = ''Unknown'' \<or> company_website = [] then Inr None
      else
        (case re_search domain_pattern company_website of
           None \<Rightarrow> Inr None
         | Some domain_match \<Rightarrow>
             (let domain = (case match_group (snd domain_match) 1 of
                              Some d \<Rightarrow> d
                            | None \<Rightarrow> ''None'');
                  name_parts = py_split (py_lower name)
              in if length name_parts < 2 then Inr None
                 else
                   (let first_name = name_parts ! 0;
                        last_name = last name_parts;
                        first_initial = (if first_name \<noteq> [] then [first_name ! 0] else []);
                        last_initial = (if last_name \<noteq> [] then [last_name ! 0] else [])
                    in case detect_known known_emails of
                         Inl e \<Rightarrow> Inl e
                       | Inr pattern \<Rightarrow>
                           (case apply_pattern pattern first_name last_name first_initial
                                   last_initial domain of
                              Some email \<Rightarrow> Inr (Some email)
                            | None \<Rightarrow>
                                (let email_candidates =
                                       map (\<lambda>format_str. py_format format_str
                                              (format_args first_name last_name first_initial
                                                 last_initial domain)) email_formats
                                 in case email_candidates of
                                      [] \<Rightarrow> Inr None
                                    | email # _ \<Rightarrow> Inr (Some email)))))))"

section \<open>Signal extraction (\<open>WebsiteAnalyzer._extract_emails\<close>, \<open>_extract_phone_numbers\<close>)\<close>

definition email_local_char :: "char \<Rightarrow> bool" where
  \<comment> \<open>the class \<open>[a-zA-Z0-9._%+-]\<close>\<close>
  "email_local_char c = (is_alpha_az c \<or> is_digit c \<or> c \<in> set ''._%+-'')"

definition email_domain_char :: "char \<Rightarrow> bool" where
  \<comment> \<open>the class \<open>[a-zA-Z0-9.-]\<close>\<close>
  "email_domain_char c = (is_alpha_az c \<or> is_digit c \<or> c \<in> set ''.-'')"

definition email_pattern :: re where
  \<comment> \<open>\<open>[a-zA-Z0-9._%+-]+@[a-zA-Z0-9.-]+\.[a-zA-Z]{2,}\<close>, the same in both classes\<close>
  "email_pattern =
     seq [Rep email_local_char 1 None, Chr CHR ''@'', Rep email_domain_char 1 None,
          Chr CHR ''.'', Rep is_alpha_az 2 None]"

fun filter_emails :: "string list \<Rightarrow> string list" where
  \<comment> \<open>the filtering loop of \<open>_extract_emails\<close> with its two \<open>continue\<close>s\<close>
  "filter_emails [] = []"
| "filter_emails (email # rest) =
     (if contains ''@example'' email \<or> contains ''@domain'' email \<or> contains ''@email'' email
      then filter_emails rest
      else if contains ''.jpg@'' email \<or> contains ''.png@'' email \<or> contains ''.gif@'' email
      then filter_emails rest
      else email # filter_emails rest)"

definition extract_emails :: "string \<Rightarrow> string list" where
  \<comment> \<open>\<open>WebsiteAnalyzer._extract_emails\<close>\<close>
  "extract_emails text =
     (if text = [] then [] else filter_emails (map fst (re_findall email_pattern text)))"

definition py_list_set :: "'a list \<Rightarrow> 'a list" where
  \<comment> \<open>\<open>list(set(xs))\<close>: the distinct elements of \<open>xs\<close>.  CPython lists them in an order
      that depends on their hashes; the model lists them in one fixed order, and nothing
      below depends on which\<close>
  "py_list_set xs = remdups xs"

definition extract_emails_from_text :: "string \<Rightarrow> string list" where
  \<comment> \<open>\<open>EmailExtractor.extract_emails_from_text\<close>\<close>
  "extract_emails_from_text text =
     (if text = [] then [] else py_list_set (map fst (re_findall email_pattern text)))"

definition phone_sep :: "char \<Rightarrow> bool" where
  \<comment> \<open>the class \<open>[-.\s]\<close>\<close>
  "phone_sep c = (c = CHR ''-'' \<or> c = CHR ''.'' \<or> is_space c)"

definition phone_pattern :: re where
  \<comment> \<open>\<open>(\+\d{1,3}[-.\s]?)?(\(?\d{3}\)?[-.\s]?\d{3}[-.\s]?\d{4})\<close>\<close>
  "phone_pattern =
     Seq (Opt (Grp 1 (seq [Chr CHR ''+'', Rep is_digit 1 (Some 3), Opt (Cls phone_sep)])))
         (Grp 2 (seq [Opt (Chr CHR ''(''), Rep is_digit 3 (Some 3), Opt (Chr CHR '')''),
                      Opt (Cls phone_sep), Rep is_digit 3 (Some 3), Opt (Cls phone_sep),
                      Rep is_digit 4 (Some 4)]))"

fun join_matches :: "string list list \<Rightarrow> string list" where
  \<comment> \<open>the loop over the tuples of \<open>re.findall\<close>: \<open>''.join(part for part in match if part)\<close>\<close>
  "join_matches [] = []"
| "join_matches (match # rest) =
     (if 2 \<le> length match then concat (filter (\<lambda>part. part \<noteq> []) match) # join_matches rest
      else join_matches rest)"

definition extract_phone_numbers :: "string \<Rightarrow> string list" where
  "extract_phone_numbers text =
     (if text = [] then []
      else join_matches (map (\<lambda>(t, cp). [group_or_empty cp 1, group_or_empty cp 2])
                           (re_findall phone_pattern text)))"

section \<open>Phone normalisation (\<open>WebsiteAnalyzer._format_phone_number\<close>)\<close>

definition strip_non_digits :: "string \<Rightarrow> string" where
  \<comment> \<open>\<open>re.sub(r'\D', '', phone)\<close>: every character that is not a digit is deleted\<close>
  "strip_non_digits phone = filter is_digit phone"

definition format_phone_number :: "string \<Rightarrow> string" where
  "format_phone_number phone =
     (let digits = strip_non_digits phone in
      if length digits = 10 then
        ''('' @ take 3 digits @ '') '' @ py_slice 3 6 digits @ ''-'' @ drop 6 digits
      else if length digits = 11 then
        ''+'' @ [digits ! 0] @ '' ('' @ py_slice 1 4 digits @ '') '' @ py_slice 4 7 digits
          @ ''-'' @ drop 7 digits
      else phone)"

section \<open>The crawl (\<open>WebsiteAnalyzer.analyze_website\<close>, \<open>_make_request\<close>)\<close>

record response =
  status_code :: nat
  resp_text :: string

datatype http_outcome =
    Raises py_exn \<comment> \<open>\<open>requests.get\<close> raises: timeout, connection error, ...\<close>
  | Responds response

definition make_request :: "(string \<Rightarrow> http_outcome) \<Rightarrow> string \<Rightarrow> response option" where
  \<comment> \<open>\<open>_make_request\<close>; the random pause before the request has no result and is left out\<close>
  "make_request get url =
     (case get url of
        Raises e \<Rightarrow> None
      | Responds response \<Rightarrow> if status_code response = 200 then Some response else None)"

record contact_info =
  emails :: "string list"
  phone_numbers :: "string list"
  social_media :: "(string \<times> string) list"

datatype result_dict =
    Empty_dict \<comment> \<open>the dictionary \<open>{}\<close>\<close>
  | Contact_info contact_info \<comment> \<open>a dictionary with the three keys\<close>

fun keys :: "result_dict \<Rightarrow> string list" where
  "keys Empty_dict = []"
| "keys (Contact_info ci) = [''emails'', ''phone_numbers'', ''social_media'']"

record page_dict =
  page_emails :: "string list option"
  page_phone_numbers :: "string list option"
  page_social_media :: "(string \<times> string) list option"

text \<open>
  The part of \<open>web_utils.py\<close> after the first lines of \<open>_extract_social_media\<close> is not
  available, and the HTTP and HTML libraries are external.  They are parameters of the
  model and may raise: \<open>http_get\<close> is \<open>requests.get\<close>, \<open>parse_html\<close> is the
  \<open>BeautifulSoup\<close> constructor, and \<open>extract_social_media\<close>, \<open>find_contact_pages\<close> and
  \<open>analyze_contact_page\<close> are the methods of these names.
\<close>

record 'soup env =
  http_get :: "string \<Rightarrow> http_outcome"
  parse_html :: "string \<Rightarrow> py_exn + 'soup"
  extract_social_media :: "string \<Rightarrow> py_exn + (string \<times> string) list"
  find_contact_pages :: "string \<Rightarrow> 'soup \<Rightarrow> py_exn + string list"
  analyze_contact_page :: "string \<Rightarrow> py_exn + page_dict"

fun dict_update :: "('k \<times> 'v) list \<Rightarrow> ('k \<times> 'v) list \<Rightarrow> ('k \<times> 'v) list" where
  \<comment> \<open>\<open>d.update(other)\<close>\<close>
  "dict_update d [] = d"
| "dict_update d ((k, v) # other) = dict_update (dict_set d k v) other"

fun merge_social :: "(string \<times> string) list \<Rightarrow> (string \<times> string) list \<Rightarrow> (string \<times> string) list" where
  \<comment> \<open>the loop \<open>if platform not in contact_info["social_media"]: ...[platform] = handle\<close>\<close>
  "merge_social d [] = d"
| "merge_social d ((platform, handle) # rest) =
     (if map_of d platform = None then merge_social (dict_set d platform handle) rest
      else merge_social d rest)"

definition merge_page :: "contact_info \<Rightarrow> page_dict \<Rightarrow> contact_info" where
  \<comment> \<open>the body of the loop over the contact pages, after the call of \<open>_analyze_contact_page\<close>\<close>
  "merge_page ci info =
     (let ci1 = ci\<lparr>emails := emails ci @ (case page_emails info of None \<Rightarrow> [] | Some es \<Rightarrow> es)\<rparr>;
          ci2 = ci1\<lparr>phone_numbers := phone_numbers ci1 @
                   (case page_phone_numbers info of None \<Rightarrow> [] | Some ps \<Rightarrow> ps)\<rparr>
      in case page_social_media info of
           None \<Rightarrow> ci2
         | Some sm \<Rightarrow> if sm = [] then ci2
                     else ci2\<lparr>social_media := merge_social (social_media ci2) sm\<rparr>)"

fun contact_loop :: "(string \<Rightarrow> py_exn + page_dict) \<Rightarrow> contact_info \<Rightarrow> string list
                       \<Rightarrow> py_exn option \<times> contact_info" where
  \<comment> \<open>\<open>for link in contact_links[:3]\<close>: the exception that ended the loop, if any, and
      \<open>contact_info\<close> as it is then\<close>
  "contact_loop acp ci [] = (None, ci)"
| "contact_loop acp ci (link # links) =
     (case acp link of
        Inl e \<Rightarrow> (Some e, ci)
      | Inr contact_page_info \<Rightarrow> contact_loop acp (merge_page ci contact_page_info) links)"

definition remove_duplicates :: "contact_info \<Rightarrow> contact_info" where
  \<comment> \<open>the two assignments under \<open># Remove duplicates\<close>\<close>
  "remove_duplicates ci =
     (let ci1 = ci\<lparr>emails := py_list_set (emails ci)\<rparr>
      in ci1\<lparr>phone_numbers := py_list_set (map format_phone_number (phone_numbers ci1))\<rparr>)"

definition analyze_try :: "'soup env \<Rightarrow> string \<Rightarrow> response \<Rightarrow> contact_info
                             \<Rightarrow> py_exn option \<times> contact_info" where
  \<comment> \<open>the \<open>try\<close> block after the main page has been fetched: the exception that left it,
      if any, and \<open>contact_info\<close> as it is then\<close>
  "analyze_try env website_url response ci =
     (case parse_html env (resp_text response) of
        Inl e \<Rightarrow> (Some e, ci)
      | Inr soup \<Rightarrow>
          (let ci1 = ci\<lparr>emails := emails ci @ extract_emails (resp_text response)\<rparr>;
               ci2 = ci1\<lparr>phone_numbers := phone_numbers ci1 @
                        extract_phone_numbers (resp_text response)\<rparr>
           in case extract_social_media env (resp_text response) of
                Inl e \<Rightarrow> (Some e, ci2)
              | Inr sm \<Rightarrow>
                  (let ci3 = ci2\<lparr>social_media := dict_update (social_media ci2) sm\<rparr>
                   in case find_contact_pages env website_url soup of
                        Inl e \<Rightarrow> (Some e, ci3)
                      | Inr contact_links \<Rightarrow>
                          (case contact_loop (analyze_contact_page env) ci3 (take 3 contact_links) of
                             (Some e, ci4) \<Rightarrow> (Some e, ci4)
                           | (None, ci4) \<Rightarrow> (None, remove_duplicates ci4)))))"

definition analyze_website :: "'soup env \<Rightarrow> string option \<Rightarrow> py_exn + result_dict" where
  \<comment> \<open>\<open>except Exception\<close> catches whatever leaves the \<open>try\<close> block, and \<open>contact_info\<close> is
      returned as it is then\<close>
  "analyze_website env website_url =
     (case website_url of
        None \<Rightarrow> Inr Empty_dict
      | Some url \<Rightarrow>
          if url = [] then Inr Empty_dict
          else
            (let contact_info = \<lparr>emails = [], phone_numbers = [], social_media = []\<rparr>
             in case make_request (http_get env) url of
                  None \<Rightarrow> Inr (Contact_info contact_info)
                | Some response \<Rightarrow>
                    Inr (Contact_info (snd (analyze_try env url response contact_info)))))"

text \<open>
  Modelled from the spec: \<open>_analyze_contact_page\<close> is in the part of \<open>web_utils.py\<close> that
  is not available.  The specification (section 4.6, step 4) has it fetch the page, skip
  it on failure, and on success extract the emails, phones and social handles and
  normalise the phones as for the main page.
\<close>

definition analyze_contact_page_spec ::
    "(string \<Rightarrow> http_outcome) \<Rightarrow> (string \<Rightarrow> py_exn + (string \<times> string) list) \<Rightarrow> string
       \<Rightarrow> py_exn + page_dict" where
  "analyze_contact_page_spec get extract_social url =
     (case make_request get url of
        None \<Rightarrow> Inr \<lparr>page_emails = None, page_phone_numbers = None, page_social_media = None\<rparr>
      | Some response \<Rightarrow>
          (case extract_social (resp_text response) of
             Inl e \<Rightarrow> Inl e
           | Inr sm \<Rightarrow>
               Inr \<lparr>page_emails = Some (extract_emails (resp_text response)),
                    page_phone_numbers =
                      Some (map format_phone_number (extract_phone_numbers (resp_text response))),
                    page_social_media = Some sm\<rparr>))"

definition with_spec_pages :: "'soup env \<Rightarrow> 'soup env" where
  \<comment> \<open>the environment whose \<open>analyze_contact_page\<close> is the one modelled from the spec\<close>
  "with_spec_pages env =
     env\<lparr>analyze_contact_page :=
           analyze_contact_page_spec (http_get env) (extract_social_media env)\<rparr>"

section \<open>Vocabulary for the statements about pattern detection\<close>

text \<open>
  An email takes part in the detection when its split at \<open>@\<close> has exactly two parts, the
  local part and the domain.
\<close>

definition well_formed :: "string \<Rightarrow> bool" where
  "well_formed email = (length (split_sep CHR ''@'' email) = 2)"

definition local_part :: "string \<Rightarrow> string" where
  "local_part email = split_sep CHR ''@'' email ! 0"

definition domain_part :: "string \<Rightarrow> string" where
  "domain_part email = split_sep CHR ''@'' email ! 1"

text \<open>
  The classification as the specification words it (section 4.4): the first rule that
  applies decides.  \<open>lowercase_word\<close> describes the strings that \<open>^[a-z][a-z]{2,}$\<close>
  matches under \<open>re.match\<close>: three or more lowercase letters, with at most one
  line feed after them, since \<open>$\<close> also matches before a final line feed.
\<close>

definition lowercase_word :: "string \<Rightarrow> bool" where
  "lowercase_word u =
     (let v = (if u \<noteq> [] \<and> last u = CHR 0x0A then butlast u else u)
      in 3 \<le> length v \<and> list_all is_lower_az v)"

definition category :: "string \<Rightarrow> string" where
  "category u =
     (if CHR ''.'' \<in> set u then ''first.last''
      else if CHR ''_'' \<in> set u then ''first_last''
      else if length u \<le> 2 then ''initials''
      else if lowercase_word u then ''firstinitiallast''
      else ''unknown'')"

section \<open>Vocabulary for the statements about email synthesis\<close>

text \<open>
  \<open>website_domain\<close> is the domain that \<open>generate_likely_email\<close> extracts from the website
  URL, \<open>name_tokens\<close> the lower-cased whitespace tokens of the name, and \<open>categories\<close>
  the five names a detected pattern can have.
\<close>

definition website_domain :: "string \<Rightarrow> string option" where
  "website_domain company_website =
     (case re_search domain_pattern company_website of
        None \<Rightarrow> None
      | Some domain_match \<Rightarrow>
          Some (case match_group (snd domain_match) 1 of Some d \<Rightarrow> d | None \<Rightarrow> ''None''))"

definition name_tokens :: "string \<Rightarrow> string list" where
  "name_tokens name = py_split (py_lower name)"

definition categories :: "string set" where
  "categories = {''first.last'', ''first_last'', ''initials'', ''firstinitiallast'', ''unknown''}"

section \<open>Vocabulary for the statements about extraction\<close>

text \<open>
  \<open>lang r\<close> is the set of strings the pattern \<open>r\<close> can match, the anchors taken as empty;
  every match the matcher reports lies in it.
\<close>

fun lang :: "re \<Rightarrow> string set" where
  "lang Eps = {[]}"
| "lang (Chr c) = {[c]}"
| "lang (Lit l) = {l}"
| "lang (Cls c) = {[x] | x. c x}"
| "lang (Seq a b) = {u @ v | u v. u \<in> lang a \<and> v \<in> lang b}"
| "lang (Opt a) = insert [] (lang a)"
| "lang (Rep c lo hi) =
     {w. (\<forall>x\<in>set w. c x) \<and> lo \<le> length w \<and> (case hi of None \<Rightarrow> True | Some h \<Rightarrow> length w \<le> h)}"
| "lang (Grp i a) = lang a"
| "lang Bol = {[]}"
| "lang Eol = {[]}"

text \<open>
  \<open>kept_email\<close> is the filter of \<open>_extract_emails\<close> read on the two parts of an address:
  the domain does not start with \<open>example\<close>, \<open>domain\<close> or \<open>email\<close>, and the local part
  does not end in \<open>.jpg\<close>, \<open>.png\<close> or \<open>.gif\<close>.
\<close>

definition ends_with :: "string \<Rightarrow> string \<Rightarrow> bool" where
  "ends_with suffix s =
     (length suffix \<le> length s \<and> drop (length s - length suffix) s = suffix)"

definition kept_email :: "string \<Rightarrow> bool" where
  "kept_email e =
     (\<not> starts_with ''example'' (domain_part e) \<and> \<not> starts_with ''domain'' (domain_part e)
      \<and> \<not> starts_with ''email'' (domain_part e)
      \<and> \<not> ends_with ''.jpg'' (local_part e) \<and> \<not> ends_with ''.png'' (local_part e)
      \<and> \<not> ends_with ''.gif'' (local_part e))"

section \<open>Vocabulary for the statements about the crawl\<close>

text \<open>
  What a page dictionary reports (the \<open>.get(key, default)\<close> of the loop), the first page
  of a list that reports a platform, and the relation between \<open>contact_info\<close> before and
  after more pages: the lists only grow at the end and no social handle changes.
  \<open>no_content\<close> is the dictionary of a page that could not be fetched, and
  \<open>spec_page_info\<close> the dictionary of a page under the \<open>_analyze_contact_page\<close> of the
  specification.
\<close>

definition reported_emails :: "page_dict \<Rightarrow> string list" where
  "reported_emails info = (case page_emails info of None \<Rightarrow> [] | Some es \<Rightarrow> es)"

definition reported_phones :: "page_dict \<Rightarrow> string list" where
  "reported_phones info = (case page_phone_numbers info of None \<Rightarrow> [] | Some ps \<Rightarrow> ps)"

definition reported_social :: "page_dict \<Rightarrow> (string \<times> string) list" where
  "reported_social info = (case page_social_media info of None \<Rightarrow> [] | Some sm \<Rightarrow> sm)"

fun first_report :: "(string \<rightharpoonup> string) list \<Rightarrow> string \<rightharpoonup> string" where
  "first_report [] platform = None"
| "first_report (page # pages) platform =
     (case page platform of Some handle \<Rightarrow> Some handle | None \<Rightarrow> first_report pages platform)"

definition retained :: "contact_info \<Rightarrow> contact_info \<Rightarrow> bool" where
  "retained ci ci' =
     ((\<exists>es. emails ci' = emails ci @ es) \<and> (\<exists>ps. phone_numbers ci' = phone_numbers ci @ ps)
      \<and> (\<forall>platform handle. map_of (social_media ci) platform = Some handle \<longrightarrow>
            map_of (social_media ci') platform = Some handle))"

definition no_content :: page_dict where
  "no_content = \<lparr>page_emails = None, page_phone_numbers = None, page_social_media = None\<rparr>"

definition spec_page_info :: "'soup env \<Rightarrow> string \<Rightarrow> page_dict" where
  "spec_page_info env l =
     (case make_request (http_get env) l of
        None \<Rightarrow> no_content
      | Some r \<Rightarrow>
          \<lparr>page_emails = Some (extract_emails (resp_text r)),
           page_phone_numbers = Some (map format_phone_number (extract_phone_numbers (resp_text r))),
           page_social_media = Some (projr (extract_social_media env (resp_text r)))\<rparr>)"

section \<open>Example environments\<close>

text \<open>
  A site of three pages: the main page answers 200, \<open>/about\<close> answers 404, \<open>/contact-us\<close>
  answers 200 and every other URL fails at the transport level.  The main page and the
  contact page show the same number \<open>+44 123 456 7890\<close> with different separators.
  \<open>failing_env\<close> is an environment in which every call raises, and
  \<open>non_authoritative_get\<close> answers every request with status 203 and a body.
\<close>

definition demo_root_text :: string where
  "demo_root_text = ''info@acme.com +44 123-456-7890 twitter.com/acme''"

definition demo_contact_text :: string where
  "demo_contact_text =
     ''info@acme.com sales@acme.com +44 123.456.7890 123.456.7890 (123) 456 7890 twitter.com/other''"

definition demo_get :: "string \<Rightarrow> http_outcome" where
  "demo_get url =
     (if url = ''https://acme.com'' then
        Responds \<lparr>status_code = 200, resp_text = demo_root_text\<rparr>
      else if url = ''https://acme.com/about'' then
        Responds \<lparr>status_code = 404, resp_text = ''Not found: webmaster@acme.com''\<rparr>
      else if url = ''https://acme.com/contact-us'' then
        Responds \<lparr>status_code = 200, resp_text = demo_contact_text\<rparr>
      else Raises Exception)"

definition demo_social :: "string \<Rightarrow> py_exn + (string \<times> string) list" where
  "demo_social text =
     Inr (if text = demo_root_text then [(''twitter'', ''acme'')]
          else if text = demo_contact_text then [(''twitter'', ''other''), (''facebook'', ''acme'')]
          else [])"

definition demo_base :: "string env" where
  "demo_base =
     \<lparr>http_get = demo_get,
      parse_html = (\<lambda>text. Inr text),
      extract_social_media = demo_social,
      find_contact_pages =
        (\<lambda>url soup. Inr [''https://acme.com/about'', ''https://acme.com/contact-us'']),
      analyze_contact_page = (\<lambda>link. Inl Exception)\<rparr>"

definition demo_env :: "string env" where
  "demo_env = with_spec_pages demo_base"

definition non_authoritative_get :: "string \<Rightarrow> http_outcome" where
  "non_authoritative_get url = Responds \<lparr>status_code = 203, resp_text = ''info@acme.com''\<rparr>"

definition failing_env :: "unit env" where
  "failing_env =
     \<lparr>http_get = (\<lambda>url. Raises Exception),
      parse_html = (\<lambda>text. Inl Exception),
      extract_social_media = (\<lambda>text. Inl Exception),
      find_contact_pages = (\<lambda>url soup. Inl Exception),
      analyze_contact_page = (\<lambda>link. Inl Exception)\<rparr>"

definition non_authoritative_env :: "string env" where
  "non_authoritative_env = demo_env\<lparr>http_get := non_authoritative_get\<rparr>"

section \<open>Properties of the phone normaliser\<close>

lemma is_digit_punct [simp]:
  "\<not> is_digit CHR ''(''" "\<not> is_digit CHR '')''" "\<not> is_digit CHR '' ''"
  "\<not> is_digit CHR ''-''" "\<not> is_digit CHR ''+''"
  by (simp_all add: is_digit_def in_range_def)

lemma strip_non_digits_idem [simp]: "filter is_digit (strip_non_digits p) = strip_non_digits p"
  by (simp add: strip_non_digits_def)

lemma filter_digits_take [simp]: "filter is_digit (take n (strip_non_digits p)) = take n (strip_non_digits p)"
  by (rule filter_True) (auto simp: strip_non_digits_def dest: in_set_takeD)

lemma filter_digits_drop [simp]: "filter is_digit (drop n (strip_non_digits p)) = drop n (strip_non_digits p)"
  by (rule filter_True) (auto simp: strip_non_digits_def dest: in_set_dropD)

lemma filter_digits_slice [simp]:
  "filter is_digit (py_slice i j (strip_non_digits p)) = py_slice i j (strip_non_digits p)"
  by (rule filter_True) (auto simp: strip_non_digits_def py_slice_def dest!: in_set_takeD in_set_dropD)

lemma filter_digits_nth [simp]:
  "0 < length (strip_non_digits p) \<Longrightarrow> is_digit (strip_non_digits p ! 0)"
  using nth_mem [of 0 "strip_non_digits p"] by (simp add: strip_non_digits_def)

lemma split_ten: "length d = 10 \<Longrightarrow> take 3 d @ py_slice 3 6 d @ drop 6 d = d"
proof -
  have "take 3 d @ take 3 (drop 3 d) = take 6 d"
    using take_add [of 3 3 d] by simp
  then have "take 3 d @ take 3 (drop 3 d) @ drop 6 d = d"
    by (metis append.assoc append_take_drop_id)
  then show ?thesis by (simp add: py_slice_def)
qed

lemma split_eleven:
  assumes "length d = 11"
  shows "[d ! 0] @ py_slice 1 4 d @ py_slice 4 7 d @ drop 7 d = d"
proof -
  have a: "[d ! 0] = take 1 d"
    using assms by (cases d) simp_all
  have b: "take 1 d @ take 3 (drop 1 d) = take 4 d"
    using take_add [of 1 3 d] by simp
  have c: "take 4 d @ take 3 (drop 4 d) = take 7 d"
    using take_add [of 4 3 d] by simp
  have "take 1 d @ take 3 (drop 1 d) @ take 3 (drop 4 d) @ drop 7 d = d"
    by (metis b c append.assoc append_take_drop_id)
  then show ?thesis by (simp add: a py_slice_def)
qed

lemma format_ten_digits:
  assumes "length (strip_non_digits p) = 10"
  shows "strip_non_digits (format_phone_number p) = strip_non_digits p"
proof -
  let ?d = "strip_non_digits p"
  have "strip_non_digits (format_phone_number p) = take 3 ?d @ py_slice 3 6 ?d @ drop 6 ?d"
    using assms by (simp add: format_phone_number_def Let_def) (simp add: strip_non_digits_def [of "_ # _"] strip_non_digits_def [of "_ @ _"])
  then show ?thesis using split_ten [OF assms] by simp
qed

lemma format_eleven_digits:
  assumes "length (strip_non_digits p) = 11"
  shows "strip_non_digits (format_phone_number p) = strip_non_digits p"
proof -
  let ?d = "strip_non_digits p"
  have "strip_non_digits (format_phone_number p)
          = [?d ! 0] @ py_slice 1 4 ?d @ py_slice 4 7 ?d @ drop 7 ?d"
    using assms by (simp add: format_phone_number_def Let_def)
      (simp add: strip_non_digits_def [of "_ # _"] strip_non_digits_def [of "_ @ _"])
  then show ?thesis using split_eleven [OF assms] by simp
qed

lemma format_phone_number_idem:
  "format_phone_number (format_phone_number x) = format_phone_number x"
proof -
  consider (ten) "length (strip_non_digits x) = 10" | (eleven) "length (strip_non_digits x) = 11"
    | (other) "length (strip_non_digits x) \<noteq> 10" "length (strip_non_digits x) \<noteq> 11"
    by blast
  then show ?thesis
  proof cases
    case ten
    have "format_phone_number (format_phone_number x) =
            (let digits = strip_non_digits x in
             ''('' @ take 3 digits @ '') '' @ py_slice 3 6 digits @ ''-'' @ drop 6 digits)"
      using ten format_ten_digits [OF ten]
      by (simp add: format_phone_number_def [of "format_phone_number x"])
    also have "\<dots> = format_phone_number x"
      using ten by (simp add: format_phone_number_def)
    finally show ?thesis .
  next
    case eleven
    have "format_phone_number (format_phone_number x) =
            (let digits = strip_non_digits x in
             ''+'' @ [digits ! 0] @ '' ('' @ py_slice 1 4 digits @ '') '' @ py_slice 4 7 digits
               @ ''-'' @ drop 7 digits)"
      using eleven format_eleven_digits [OF eleven]
      by (simp add: format_phone_number_def [of "format_phone_number x"])
    also have "\<dots> = format_phone_number x"
      using eleven by (simp add: format_phone_number_def)
    finally show ?thesis .
  next
    case other
    then have "format_phone_number x = x"
      by (simp add: format_phone_number_def)
    then show ?thesis by simp
  qed
qed

text \<open>
  Claim C6.  Normalising a phone number twice gives the same string as normalising it once,
  for every input string.  An input whose digits are exactly ten is rendered as
  \<open>(AAA) BBB-CCCC\<close>; one whose digits are exactly eleven as \<open>+D (AAA) BBB-CCCC\<close>, the
  first digit being the country code; with any other number of digits the input comes
  back unchanged.
\<close>

theorem format_phone_number_canonical:
  "format_phone_number (format_phone_number x) = format_phone_number x
   \<and> (\<forall>a b c d e f g h i j. strip_non_digits x = [a, b, c, d, e, f, g, h, i, j] \<longrightarrow>
        format_phone_number x =
          [CHR ''('', a, b, c, CHR '')'', CHR '' '', d, e, f, CHR ''-'', g, h, i, j])
   \<and> (\<forall>cc a b c d e f g h i j. strip_non_digits x = [cc, a, b, c, d, e, f, g, h, i, j] \<longrightarrow>
        format_phone_number x =
          [CHR ''+'', cc, CHR '' '', CHR ''('', a, b, c, CHR '')'', CHR '' '', d, e, f, CHR ''-'',
           g, h, i, j])
   \<and> (length (strip_non_digits x) \<noteq> 10 \<and> length (strip_non_digits x) \<noteq> 11 \<longrightarrow>
        format_phone_number x = x)"
  by (simp add: format_phone_number_idem) (simp add: format_phone_number_def py_slice_def)

theorem format_phone_number_canonical_witness:
  "strip_non_digits ''123.456.7890'' = ''1234567890''
   \<and> format_phone_number ''123.456.7890'' = ''(123) 456-7890''
   \<and> strip_non_digits ''1-800-555-0199'' = ''18005550199''
   \<and> format_phone_number ''1-800-555-0199'' = ''+1 (800) 555-0199''
   \<and> length (strip_non_digits ''+44 123-456-7890'') \<noteq> 10
   \<and> length (strip_non_digits ''+44 123-456-7890'') \<noteq> 11
   \<and> format_phone_number ''+44 123-456-7890'' = ''+44 123-456-7890''
   \<and> format_phone_number (format_phone_number ''123.456.7890'') = format_phone_number ''123.456.7890''"
proof -
  have d10: "strip_non_digits ''123.456.7890'' = ''1234567890''"
    by (simp add: strip_non_digits_def is_digit_def in_range_def)
  have d11: "strip_non_digits ''1-800-555-0199'' = ''18005550199''"
    by (simp add: strip_non_digits_def is_digit_def in_range_def)
  have d12: "strip_non_digits ''+44 123-456-7890'' = ''441234567890''"
    by (simp add: strip_non_digits_def is_digit_def in_range_def)
  have n10: "length (strip_non_digits ''+44 123-456-7890'') \<noteq> 10"
    and n11: "length (strip_non_digits ''+44 123-456-7890'') \<noteq> 11"
    by (simp_all add: d12)
  have f10: "format_phone_number ''123.456.7890'' = ''(123) 456-7890''"
    using format_phone_number_canonical [of "''123.456.7890''"] by (simp add: d10)
  have f11: "format_phone_number ''1-800-555-0199'' = ''+1 (800) 555-0199''"
    using format_phone_number_canonical [of "''1-800-555-0199''"] by (simp add: d11)
  have f12: "format_phone_number ''+44 123-456-7890'' = ''+44 123-456-7890''"
    using format_phone_number_canonical [of "''+44 123-456-7890''"] n10 n11 by blast
  have idem: "format_phone_number (format_phone_number ''123.456.7890'')
                = format_phone_number ''123.456.7890''"
    using format_phone_number_canonical [of "''123.456.7890''"] by blast
  show ?thesis
    by (intro conjI) (fact d10 f10 d11 f11 n10 n11 f12 idem)+
qed

section \<open>Properties of pattern detection\<close>

lemma parse_emails_eq:
  "parse_emails es D U =
     (D \<union> (\<lambda>e. split_sep CHR ''@'' e ! 1) ` set (filter (\<lambda>e. length (split_sep CHR ''@'' e) = 2) es),
      U @ map (\<lambda>e. split_sep CHR ''@'' e ! 0) (filter (\<lambda>e. length (split_sep CHR ''@'' e) = 2) es))"
  by (induction es arbitrary: D U) (auto simp: Let_def)

lemma keys_dict_set:
  "map fst (dict_set d k v) = map fst d @ (if k \<in> set (map fst d) then [] else [k])"
  by (induction d) force+

lemma dict_get_dict_set:
  "dict_get (dict_set d k v) k' dflt = (if k' = k then v else dict_get d k' dflt)"
  by (induction d) auto

lemma dict_get_absent: "k \<notin> set (map fst d) \<Longrightarrow> dict_get d k dflt = dflt"
  by (induction d) auto

lemma dict_get_present: "(k, v) \<in> set d \<Longrightarrow> distinct (map fst d) \<Longrightarrow> dict_get d k dflt = v"
  by (induction d) (auto simp: rev_image_eqI)

lemma count_patterns_append:
  "count_patterns d (ps @ qs) = count_patterns (count_patterns d ps) qs"
  by (induction ps arbitrary: d) auto

lemma keys_count_patterns:
  "\<exists>ext. map fst (count_patterns d ps) = map fst d @ ext \<and> set ext = set ps - set (map fst d)
         \<and> (distinct (map fst d) \<longrightarrow> distinct (map fst d @ ext))"
proof (induction ps arbitrary: d)
  case Nil
  then show ?case by simp
next
  case (Cons p ps)
  let ?d' = "dict_set d p (dict_get d p 0 + 1)"
  from Cons.IH [of ?d'] obtain ext where
    e: "map fst (count_patterns ?d' ps) = map fst ?d' @ ext"
       "set ext = set ps - set (map fst ?d')"
       "distinct (map fst ?d') \<longrightarrow> distinct (map fst ?d' @ ext)"
    by blast
  show ?case
  proof (cases "p \<in> set (map fst d)")
    case True
    then have k: "map fst ?d' = map fst d" by (simp add: keys_dict_set)
    note e' = e [unfolded k]
    have "set ext = set (p # ps) - set (map fst d)"
      using e'(2) True by auto
    with e' show ?thesis
      by (intro exI [of _ ext]) simp
  next
    case False
    then have k: "map fst ?d' = map fst d @ [p]" by (simp add: keys_dict_set)
    note e' = e [unfolded k]
    have "set (p # ext) = set (p # ps) - set (map fst d)"
      using e'(2) False by auto
    moreover have "distinct (map fst d) \<longrightarrow> distinct (map fst d @ p # ext)"
      using e'(3) False by auto
    ultimately show ?thesis
      using e'(1) by (intro exI [of _ "p # ext"]) simp
  qed
qed

lemma counts_count_patterns:
  "dict_get (count_patterns d ps) k 0 = dict_get d k 0 + count_list ps k"
  by (induction ps arbitrary: d) (auto simp: dict_get_dict_set)

lemma max_loop_spec:
  "\<exists>pre post. best # items = pre @ max_loop best items # post
      \<and> (\<forall>x\<in>set pre. snd x < snd (max_loop best items))
      \<and> (\<forall>x\<in>set post. snd x \<le> snd (max_loop best items))"
proof (induction items arbitrary: best)
  case Nil
  show ?case by (rule exI [of _ "[]"]) simp
next
  case (Cons item items)
  show ?case
  proof (cases "snd best < snd item")
    case True
    then have ml: "max_loop best (item # items) = max_loop item items" by simp
    from Cons.IH [of item] obtain pre post where
      s: "item # items = pre @ max_loop item items # post"
         "\<forall>x\<in>set pre. snd x < snd (max_loop item items)"
         "\<forall>x\<in>set post. snd x \<le> snd (max_loop item items)"
      by blast
    have "snd item \<le> snd (max_loop item items)"
    proof (cases pre)
      case Nil
      with s(1) have "max_loop item items = item" by (metis append_Nil list.inject)
      then show ?thesis by simp
    next
      case (Cons b pre')
      with s(1) have "b = item" by simp
      with s(2) Cons show ?thesis by (simp add: less_imp_le)
    qed
    with True have "snd best < snd (max_loop item items)" by simp
    with s(2) have "\<forall>x\<in>set (best # pre). snd x < snd (max_loop item items)" by simp
    moreover have "best # item # items = (best # pre) @ max_loop item items # post"
      using s(1) by simp
    ultimately show ?thesis unfolding ml using s(3) by blast
  next
    case False
    then have ml: "max_loop best (item # items) = max_loop best items" by simp
    from Cons.IH [of best] obtain pre post where
      s: "best # items = pre @ max_loop best items # post"
         "\<forall>x\<in>set pre. snd x < snd (max_loop best items)"
         "\<forall>x\<in>set post. snd x \<le> snd (max_loop best items)"
      by blast
    show ?thesis
    proof (cases pre)
      case Nil
      with s(1) have b: "max_loop best items = best" "post = items"
        by (metis append_Nil list.inject)+
      have "best # item # items = [] @ best # (item # items)" by simp
      moreover have "\<forall>x\<in>set (item # items). snd x \<le> snd best"
        using s(3) b False by (simp add: not_less)
      ultimately show ?thesis unfolding ml b(1) by (metis empty_iff list.set(1))
    next
      case (Cons b pre')
      with s(1) have b: "b = best" "items = pre' @ max_loop best items # post"
        by (metis append_Cons list.inject)+
      have "snd best < snd (max_loop best items)" using s(2) Cons b by simp
      with False have "snd item < snd (max_loop best items)" by simp
      with s(2) Cons b have "\<forall>x\<in>set (best # item # pre'). snd x < snd (max_loop best items)"
        by simp
      moreover have "best # item # items = (best # item # pre') @ max_loop best items # post"
        using b(2) by simp
      ultimately show ?thesis unfolding ml using s(3) by blast
    qed
  qed
qed

lemma split_unique:
  assumes "a @ w # b = a' @ w # b'" "w \<notin> set a" "w \<notin> set a'"
  shows "a = a'"
proof -
  have tw: "w \<notin> set xs \<Longrightarrow> takeWhile (\<lambda>x. x \<noteq> w) (xs @ w # ys) = xs" for xs ys
    by (induction xs) auto
  from tw [OF assms(2), of b] tw [OF assms(3), of b'] assms(1) show ?thesis by simp
qed

lemma items_count_patterns:
  assumes "(k, v) \<in> set (count_patterns [] ps)"
  shows "v = count_list ps k" "k \<in> set ps"
proof -
  obtain ext where e: "map fst (count_patterns [] ps) = ext" "set ext = set ps" "distinct ext"
    using keys_count_patterns [of "[]" ps] by auto
  then have "distinct (map fst (count_patterns [] ps))" by simp
  from dict_get_present [OF assms this, of 0] show "v = count_list ps k"
    by (simp add: counts_count_patterns)
  from assms have "k \<in> set (map fst (count_patterns [] ps))" by force
  with e show "k \<in> set ps" by simp
qed

lemma count_patterns_winner:
  assumes "ps \<noteq> []"
  shows "\<exists>w pre post. py_max_by_count (count_patterns [] ps) = Inr (w, count_list ps w)
           \<and> ps = pre @ w # post \<and> w \<notin> set pre
           \<and> (\<forall>p\<in>set pre. count_list ps p < count_list ps w)
           \<and> (\<forall>p\<in>set ps. count_list ps p \<le> count_list ps w)"
proof -
  let ?items = "count_patterns [] ps"
  obtain keys where k: "map fst ?items = keys" "set keys = set ps" "distinct keys"
    using keys_count_patterns [of "[]" ps] by auto
  with assms have "?items \<noteq> []" by auto
  then obtain x xs where x: "?items = x # xs" by (cases ?items) auto
  define r where "r = max_loop x xs"
  obtain ipre ipost where
    s: "?items = ipre @ r # ipost" "\<forall>y\<in>set ipre. snd y < snd r" "\<forall>y\<in>set ipost. snd y \<le> snd r"
    using max_loop_spec [of x xs] unfolding r_def x by blast
  obtain w c where r: "r = (w, c)" by (cases r)
  have mem: "(w, c) \<in> set ?items" using s(1) r by simp
  have c: "c = count_list ps w" and w: "w \<in> set ps"
    using items_count_patterns [OF mem] by simp_all
  have res: "py_max_by_count ?items = Inr (w, count_list ps w)"
    using x r r_def c by (simp add: py_max_by_count_def)
  have le: "\<forall>p\<in>set ps. count_list ps p \<le> count_list ps w"
  proof
    fix p assume "p \<in> set ps"
    with k have "p \<in> fst ` set ?items" by (metis set_map)
    then obtain v where v: "(p, v) \<in> set ?items" by force
    then have "v = count_list ps p" by (rule items_count_patterns)
    moreover from v have "(p, v) \<in> set ipre \<or> (p, v) = r \<or> (p, v) \<in> set ipost"
      using s(1) by (metis Un_iff in_set_conv_decomp insert_iff list.set(2) set_append)
    then have "v \<le> c" using s(2,3) r by (auto simp: less_imp_le)
    ultimately show "count_list ps p \<le> count_list ps w" using c by simp
  qed
  from split_list_first [OF w] obtain pre post where
    sp: "ps = pre @ w # post" "w \<notin> set pre" by blast
  have first: "\<forall>p\<in>set pre. count_list ps p < count_list ps w"
  proof
    fix p assume p: "p \<in> set pre"
    obtain k1 where k1: "map fst (count_patterns [] pre) = k1" "set k1 = set pre"
      using keys_count_patterns [of "[]" pre] by auto
    let ?d1 = "count_patterns [] pre"
    let ?d2 = "count_patterns ?d1 [w]"
    have k2: "map fst ?d2 = k1 @ [w]"
      using k1 sp(2) by (simp add: keys_dict_set)
    obtain ext where "map fst (count_patterns ?d2 post) = map fst ?d2 @ ext"
      using keys_count_patterns [of ?d2 post] by blast
    moreover have "?items = count_patterns ?d2 post"
      using count_patterns_append [of "[]" pre "w # post"]
        count_patterns_append [of ?d1 "[w]" post] sp(1) by simp
    ultimately have "map fst ?items = k1 @ w # ext" using k2 by simp
    moreover have "map fst ?items = map fst ipre @ w # map fst ipost"
      using s(1) r by simp
    moreover have "w \<notin> set (map fst ipre)"
    proof -
      have "distinct (map fst ipre @ w # map fst ipost)"
        using k(1,3) s(1) r by (metis calculation(2))
      then show ?thesis by simp
    qed
    ultimately have "map fst ipre = k1"
      using split_unique [of "map fst ipre" w "map fst ipost" k1 ext] k1(2) sp(2) by simp
    with p k1(2) have "p \<in> fst ` set ipre" by (metis set_map)
    then obtain v where v: "(p, v) \<in> set ipre" by force
    then have "(p, v) \<in> set ?items" using s(1) by simp
    then have "v = count_list ps p" by (rule items_count_patterns)
    moreover have "v < c" using s(2) v r by force
    ultimately show "count_list ps p < count_list ps w" using c by simp
  qed
  show ?thesis using res sp le first by blast
qed

lemma detect_email_pattern_eq:
  "detect_email_pattern es =
     (if length es < 2 then Inr None
      else if card (domain_part ` set (filter well_formed es)) \<noteq> 1 then Inr None
      else (case py_max_by_count
                   (count_patterns [] (map (\<lambda>e. classify_username (local_part e))
                                          (filter well_formed es))) of
              Inl e \<Rightarrow> Inl e
            | Inr most_common \<Rightarrow> Inr (Some (fst most_common))))"
proof -
  have "card (domain_part ` set (filter well_formed es)) = 1
          \<Longrightarrow> domain_part ` set (filter well_formed es) \<noteq> {}"
    by (metis card.empty zero_neq_one)
  then show ?thesis
    unfolding detect_email_pattern_def parse_emails_eq
    by (auto simp: well_formed_def [abs_def] local_part_def [abs_def] domain_part_def [abs_def]
          Let_def comp_def)
qed

lemma rep_unbounded:
  "rep c lo None n s k \<noteq> None \<longleftrightarrow>
     (\<exists>i. lo \<le> i \<and> i \<le> length (takeWhile c s) \<and> k (n + i) (drop i s) \<noteq> None)"
proof (induction s arbitrary: lo n)
  case Nil
  show ?case by auto
next
  case (Cons x xs)
  show ?case
  proof (cases "c x")
    case False
    then show ?thesis by auto
  next
    case True
    have "rep c lo None n (x # xs) k \<noteq> None \<longleftrightarrow>
            rep c (lo - 1) None (Suc n) xs k \<noteq> None \<or> (lo = 0 \<and> k n (x # xs) \<noteq> None)"
      using True by (auto split: option.splits)
    also have "\<dots> \<longleftrightarrow> (\<exists>i. lo - 1 \<le> i \<and> i \<le> length (takeWhile c xs)
                              \<and> k (Suc n + i) (drop i xs) \<noteq> None)
                         \<or> (lo = 0 \<and> k n (x # xs) \<noteq> None)"
      using Cons.IH [of "lo - 1" "Suc n"] by simp
    also have "\<dots> \<longleftrightarrow> (\<exists>i. lo \<le> i \<and> i \<le> length (takeWhile c (x # xs))
                              \<and> k (n + i) (drop i (x # xs)) \<noteq> None)"
      (is "?L \<longleftrightarrow> ?R")
    proof
      assume ?L
      then show ?R
      proof
        assume "\<exists>i. lo - 1 \<le> i \<and> i \<le> length (takeWhile c xs) \<and> k (Suc n + i) (drop i xs) \<noteq> None"
        then obtain i where "lo - 1 \<le> i" "i \<le> length (takeWhile c xs)"
          "k (Suc n + i) (drop i xs) \<noteq> None" by blast
        then show ?R using True by (intro exI [of _ "Suc i"]) auto
      next
        assume "lo = 0 \<and> k n (x # xs) \<noteq> None"
        then show ?R by (intro exI [of _ 0]) auto
      qed
    next
      assume ?R
      then obtain i where i: "lo \<le> i" "i \<le> length (takeWhile c (x # xs))"
        "k (n + i) (drop i (x # xs)) \<noteq> None" by blast
      show ?L
      proof (cases i)
        case 0
        with i show ?thesis by simp
      next
        case (Suc j)
        with i True have "lo - 1 \<le> j \<and> j \<le> length (takeWhile c xs) \<and> k (Suc n + j) (drop j xs) \<noteq> None"
          by auto
        then show ?thesis by blast
      qed
    qed
    finally show ?thesis .
  qed
qed

lemma not_lower_newline: "\<not> is_lower_az (CHR 0x0A)"
  by (simp add: is_lower_az_def in_range_def)

lemma first_initial_last_pattern_matches:
  "re_match first_initial_last_pattern u \<noteq> None \<longleftrightarrow>
     (\<exists>v. (u = v \<or> u = v @ [CHR 0x0A]) \<and> 3 \<le> length v \<and> (\<forall>c\<in>set v. is_lower_az c))"
  (is "?M \<longleftrightarrow> ?S")
proof -
  let ?k = "\<lambda>(n::nat) s. if s = [] \<or> s = [CHR 0x0A] then Some n else None"
  have m: "?M \<longleftrightarrow> (\<exists>x xs. u = x # xs \<and> is_lower_az x \<and> rep is_lower_az 2 None 1 xs ?k \<noteq> None)"
  proof (cases u)
    case Nil
    then show ?thesis
      by (simp add: re_match_def match_at_def first_initial_last_pattern_def)
  next
    case (Cons x xs)
    have "rep is_lower_az 2 None (Suc 0) xs
            (\<lambda>n' s'. if s' = [] \<or> s' = [CHR 0x0A] then Some (n', []) else None) \<noteq> None
          \<longleftrightarrow> rep is_lower_az 2 None 1 xs ?k \<noteq> None"
      unfolding rep_unbounded by simp
    then show ?thesis using Cons
      by (simp add: re_match_def match_at_def first_initial_last_pattern_def
            split: option.splits) auto
  qed
  show ?thesis
  proof
    assume ?M
    with m obtain x xs i where x: "u = x # xs" "is_lower_az x" "2 \<le> i"
      "i \<le> length (takeWhile is_lower_az xs)" "drop i xs = [] \<or> drop i xs = [CHR 0x0A]"
      unfolding rep_unbounded by (auto split: if_splits)
    let ?v = "x # take i xs"
    have "take i xs = take i (takeWhile is_lower_az xs)"
      using x(4) by (metis append_eq_conv_conj min.absorb2 take_take takeWhile_dropWhile_id
          length_take take_all_iff takeWhile_eq_take)
    then have "\<forall>c\<in>set (take i xs). is_lower_az c"
      by (metis in_set_takeD set_takeWhileD)
    moreover have "length (take i xs) = i" using x(4)
      by (metis length_take length_takeWhile_le min.absorb2 order_trans)
    moreover have "u = ?v @ drop i xs" using x(1) by simp
    then have "u = ?v \<or> u = ?v @ [CHR 0x0A]" using x(5) by (metis append_Nil2)
    ultimately have "(u = ?v \<or> u = ?v @ [CHR 0x0A]) \<and> 3 \<le> length ?v
                       \<and> (\<forall>c\<in>set ?v. is_lower_az c)"
      using x(2,3) by simp
    then show ?S by (rule exI [of _ ?v])
  next
    assume ?S
    then obtain v where v: "u = v \<or> u = v @ [CHR 0x0A]" "3 \<le> length v" "\<forall>c\<in>set v. is_lower_az c"
      by blast
    then obtain x vs where xv: "v = x # vs" by (cases v) auto
    define xs where "xs = tl u"
    have u: "u = x # xs" using v(1) xv by (auto simp: xs_def)
    have xs: "xs = vs \<or> xs = vs @ [CHR 0x0A]" using v(1) xv by (auto simp: xs_def)
    have lo: "\<forall>c\<in>set vs. is_lower_az c" using v(3) xv by simp
    have tw: "takeWhile is_lower_az xs = vs"
      using xs lo by (auto simp: takeWhile_append2 not_lower_newline)
    have dr: "drop (length vs) xs = [] \<or> drop (length vs) xs = [CHR 0x0A]"
      using xs by auto
    have "rep is_lower_az 2 None 1 xs ?k \<noteq> None"
      unfolding rep_unbounded using v(2) xv tw dr
      by (intro exI [of _ "length vs"]) auto
    with u v(3) xv m show ?M by auto
  qed
qed

lemma lowercase_word_iff:
  "lowercase_word u \<longleftrightarrow>
     (\<exists>v. (u = v \<or> u = v @ [CHR 0x0A]) \<and> 3 \<le> length v \<and> (\<forall>c\<in>set v. is_lower_az c))"
  (is "?L \<longleftrightarrow> ?R")
proof
  assume ?L
  let ?v = "if u \<noteq> [] \<and> last u = CHR 0x0A then butlast u else u"
  have "u = ?v \<or> u = ?v @ [CHR 0x0A]"
    by (metis append_butlast_last_id)
  with \<open>?L\<close> show ?R
    unfolding lowercase_word_def Let_def list_all_iff by blast
next
  assume ?R
  then obtain v where v: "u = v \<or> u = v @ [CHR 0x0A]" "3 \<le> length v" "\<forall>c\<in>set v. is_lower_az c"
    by blast
  from v(2) have ne: "v \<noteq> []" by auto
  have "last v \<noteq> CHR 0x0A" using v(3) ne not_lower_newline by (metis last_in_set)
  with v ne have "(if u \<noteq> [] \<and> last u = CHR 0x0A then butlast u else u) = v"
    by auto
  with v show ?L by (simp add: lowercase_word_def list_all_iff)
qed

lemma classify_username_category: "classify_username u = category u"
  unfolding classify_username_def category_def
  by (simp only: first_initial_last_pattern_matches lowercase_word_iff)

lemma detect_first_dot_last:
  "detect_email_pattern [''a.b@x.com'', ''c.d@x.com''] = Inr (Some ''first.last'')"
  by (simp add: detect_email_pattern_def Let_def classify_username_def py_max_by_count_def)

text \<open>
  Claim C4.  Take two or more emails of which those that split at \<open>@\<close> into a local part
  and a domain share one domain.  Detection classifies each such local part by the fixed
  priority order (a dot, else an underscore, else at most two characters, else
  \<open>^[a-z][a-z]{2,}$\<close>, else unknown) and returns a category \<open>w\<close> with the most votes;
  among categories with as many votes, \<open>w\<close> is the one seen first in the input: every
  category before the first \<open>w\<close> has strictly fewer votes.  In particular the two emails
  \<open>a.b@x.com\<close> and \<open>c.d@x.com\<close> give \<open>first.last\<close>.
\<close>

theorem detect_majority_first_seen:
  "(2 \<le> length es \<and> filter well_formed es \<noteq> []
      \<and> (\<forall>e\<in>set es. well_formed e \<longrightarrow> domain_part e = d) \<longrightarrow>
      (\<exists>w pre post.
         detect_email_pattern es = Inr (Some w)
         \<and> map (\<lambda>e. category (local_part e)) (filter well_formed es) = pre @ w # post
         \<and> w \<notin> set pre
         \<and> (\<forall>p\<in>set pre. count_list (pre @ w # post) p < count_list (pre @ w # post) w)
         \<and> (\<forall>p\<in>set post. count_list (pre @ w # post) p \<le> count_list (pre @ w # post) w)))
   \<and> detect_email_pattern [''a.b@x.com'', ''c.d@x.com''] = Inr (Some ''first.last'')"
proof (intro conjI impI)
  assume a: "2 \<le> length es \<and> filter well_formed es \<noteq> []
      \<and> (\<forall>e\<in>set es. well_formed e \<longrightarrow> domain_part e = d)"
  let ?wf = "filter well_formed es"
  let ?ps = "map (\<lambda>e. category (local_part e)) ?wf"
  have "domain_part ` set ?wf = {d}"
    using a by (cases ?wf) (auto simp: filter_eq_Cons_iff)
  then have card: "card (domain_part ` set ?wf) = 1" by simp
  have ne: "?ps \<noteq> []" using a by simp
  from count_patterns_winner [OF ne] obtain w pre post where
    w: "py_max_by_count (count_patterns [] ?ps) = Inr (w, count_list ?ps w)"
       "?ps = pre @ w # post" "w \<notin> set pre"
       "\<forall>p\<in>set pre. count_list ?ps p < count_list ?ps w"
       "\<forall>p\<in>set ?ps. count_list ?ps p \<le> count_list ?ps w"
    by blast
  have "detect_email_pattern es = Inr (Some w)"
    using a card w(1) by (simp add: detect_email_pattern_eq classify_username_category)
  moreover have "\<forall>p\<in>set pre. count_list (pre @ w # post) p < count_list (pre @ w # post) w"
    using w(4) unfolding w(2) .
  moreover have "\<forall>p\<in>set post. count_list (pre @ w # post) p \<le> count_list (pre @ w # post) w"
    using w(5) unfolding w(2) by simp
  ultimately show "\<exists>w pre post.
         detect_email_pattern es = Inr (Some w)
         \<and> ?ps = pre @ w # post
         \<and> w \<notin> set pre
         \<and> (\<forall>p\<in>set pre. count_list (pre @ w # post) p < count_list (pre @ w # post) w)
         \<and> (\<forall>p\<in>set post. count_list (pre @ w # post) p \<le> count_list (pre @ w # post) w)"
    using w(2,3) by blast
next
  show "detect_email_pattern [''a.b@x.com'', ''c.d@x.com''] = Inr (Some ''first.last'')"
    by (rule detect_first_dot_last)
qed

text \<open>
  Claim C5.  Detection returns \<open>None\<close> when fewer than two emails are supplied, and when
  two of the supplied emails have different domains; in particular for \<open>a@x.com\<close> and
  \<open>b@y.com\<close>.
\<close>

theorem detect_none_few_or_mixed_domains:
  "(length es < 2 \<longrightarrow> detect_email_pattern es = Inr None)
   \<and> (\<forall>e1\<in>set es. \<forall>e2\<in>set es.
         well_formed e1 \<and> well_formed e2 \<and> domain_part e1 \<noteq> domain_part e2 \<longrightarrow>
         detect_email_pattern es = Inr None)
   \<and> detect_email_pattern [''a@x.com'', ''b@y.com''] = Inr None"
proof (intro conjI impI ballI)
  assume "length es < 2"
  then show "detect_email_pattern es = Inr None"
    by (simp add: detect_email_pattern_eq)
next
  fix e1 e2
  assume m: "e1 \<in> set es" "e2 \<in> set es"
    and d: "well_formed e1 \<and> well_formed e2 \<and> domain_part e1 \<noteq> domain_part e2"
  let ?D = "domain_part ` set (filter well_formed es)"
  have "{domain_part e1, domain_part e2} \<subseteq> ?D" using m d by auto
  moreover have "finite ?D" by simp
  ultimately have "card {domain_part e1, domain_part e2} \<le> card ?D"
    by (rule card_mono [rotated])
  with d have "card ?D \<noteq> 1" by simp
  then show "detect_email_pattern es = Inr None"
    by (simp add: detect_email_pattern_eq)
next
  show "detect_email_pattern [''a@x.com'', ''b@y.com''] = Inr None"
    by (simp add: detect_email_pattern_def Let_def)
qed

lemmas split_at_simps = well_formed_def local_part_def domain_part_def

theorem detect_majority_first_seen_witness:
  "2 \<le> length [''ab@x.com'', ''a.b@x.com'', ''bogus'', ''c.d@x.com'', ''cd@x.com'']
   \<and> filter well_formed [''ab@x.com'', ''a.b@x.com'', ''bogus'', ''c.d@x.com'', ''cd@x.com'']
         = [''ab@x.com'', ''a.b@x.com'', ''c.d@x.com'', ''cd@x.com'']
   \<and> map domain_part [''ab@x.com'', ''a.b@x.com'', ''c.d@x.com'', ''cd@x.com'']
         = [''x.com'', ''x.com'', ''x.com'', ''x.com'']
   \<and> (\<exists>w pre post.
         detect_email_pattern [''ab@x.com'', ''a.b@x.com'', ''bogus'', ''c.d@x.com'', ''cd@x.com'']
           = Inr (Some w)
         \<and> map (\<lambda>e. category (local_part e))
               (filter well_formed [''ab@x.com'', ''a.b@x.com'', ''bogus'', ''c.d@x.com'', ''cd@x.com''])
             = pre @ w # post
         \<and> w \<notin> set pre
         \<and> (\<forall>p\<in>set pre. count_list (pre @ w # post) p < count_list (pre @ w # post) w)
         \<and> (\<forall>p\<in>set post. count_list (pre @ w # post) p \<le> count_list (pre @ w # post) w))"
proof -
  let ?es = "[''ab@x.com'', ''a.b@x.com'', ''bogus'', ''c.d@x.com'', ''cd@x.com'']"
  have h1: "2 \<le> length ?es" by simp
  have wf: "filter well_formed ?es = [''ab@x.com'', ''a.b@x.com'', ''c.d@x.com'', ''cd@x.com'']"
    by (simp add: split_at_simps)
  have ds: "map domain_part [''ab@x.com'', ''a.b@x.com'', ''c.d@x.com'', ''cd@x.com'']
              = [''x.com'', ''x.com'', ''x.com'', ''x.com'']"
    by (simp add: split_at_simps)
  have h2: "filter well_formed ?es \<noteq> []" unfolding wf by simp
  have h3: "\<forall>e\<in>set ?es. well_formed e \<longrightarrow> domain_part e = ''x.com''"
    by (simp add: split_at_simps)
  from detect_majority_first_seen [of ?es "''x.com''"] h1 h2 h3 have
    "\<exists>w pre post.
         detect_email_pattern ?es = Inr (Some w)
         \<and> map (\<lambda>e. category (local_part e)) (filter well_formed ?es) = pre @ w # post
         \<and> w \<notin> set pre
         \<and> (\<forall>p\<in>set pre. count_list (pre @ w # post) p < count_list (pre @ w # post) w)
         \<and> (\<forall>p\<in>set post. count_list (pre @ w # post) p \<le> count_list (pre @ w # post) w)"
    by blast
  with h1 wf ds show ?thesis by blast
qed

theorem detect_none_few_or_mixed_domains_witness:
  "length [''only@x.com''] < 2
   \<and> detect_email_pattern [''only@x.com''] = Inr None
   \<and> ''a@x.com'' \<in> set [''a@x.com'', ''p.q@x.com'', ''b@y.com'']
   \<and> ''b@y.com'' \<in> set [''a@x.com'', ''p.q@x.com'', ''b@y.com'']
   \<and> well_formed ''a@x.com'' \<and> well_formed ''b@y.com''
   \<and> domain_part ''a@x.com'' \<noteq> domain_part ''b@y.com''
   \<and> detect_email_pattern [''a@x.com'', ''p.q@x.com'', ''b@y.com''] = Inr None"
proof -
  have h1: "length [''only@x.com''] < 2" by simp
  have m1: "''a@x.com'' \<in> set [''a@x.com'', ''p.q@x.com'', ''b@y.com'']"
    and m2: "''b@y.com'' \<in> set [''a@x.com'', ''p.q@x.com'', ''b@y.com'']" by simp_all
  have w1: "well_formed ''a@x.com''" and w2: "well_formed ''b@y.com''"
    and dd: "domain_part ''a@x.com'' \<noteq> domain_part ''b@y.com''"
    by (simp_all add: split_at_simps)
  have r1: "detect_email_pattern [''only@x.com''] = Inr None"
    using detect_none_few_or_mixed_domains [of "[''only@x.com'']"] h1 by blast
  have r2: "detect_email_pattern [''a@x.com'', ''p.q@x.com'', ''b@y.com''] = Inr None"
    using detect_none_few_or_mixed_domains [of "[''a@x.com'', ''p.q@x.com'', ''b@y.com'']"]
      m1 m2 w1 w2 dd by blast
  show ?thesis
    by (intro conjI) (fact h1 r1 m1 m2 w1 w2 dd r2)+
qed

lemma detect_tie_first_seen:
  "detect_email_pattern [''ab@x.com'', ''a.b@x.com'', ''bogus'', ''c.d@x.com'', ''cd@x.com'']
     = Inr (Some ''initials'')"
  by (simp add: detect_email_pattern_def Let_def classify_username_def py_max_by_count_def)

section \<open>Properties of email synthesis\<close>

lemma category_in_categories: "category u \<in> categories"
  by (simp add: category_def categories_def)

lemma detect_email_pattern_total:
  "\<exists>r. detect_email_pattern es = Inr r \<and> (r = None \<or> (\<exists>p\<in>categories. r = Some p))"
proof (cases "length es < 2 \<or> card (domain_part ` set (filter well_formed es)) \<noteq> 1")
  case True
  then show ?thesis by (auto simp: detect_email_pattern_eq)
next
  case False
  let ?ps = "map (\<lambda>e. classify_username (local_part e)) (filter well_formed es)"
  from False have "domain_part ` set (filter well_formed es) \<noteq> {}"
    by (metis card.empty zero_neq_one)
  then have "?ps \<noteq> []" by (auto simp: filter_empty_conv)
  from count_patterns_winner [OF this] obtain w pre post where
    w0: "py_max_by_count (count_patterns [] ?ps) = Inr (w, count_list ?ps w)"
      "?ps = pre @ w # post"
    by blast
  have "w \<in> set (pre @ w # post)" by simp
  then have w: "py_max_by_count (count_patterns [] ?ps) = Inr (w, count_list ?ps w)"
    "w \<in> set ?ps"
    using w0 by simp_all
  from w(2) have "w \<in> categories"
    by (auto simp: classify_username_category category_in_categories)
  with False w(1) show ?thesis by (simp add: detect_email_pattern_eq)
qed

lemma detect_known_total:
  "\<exists>r. detect_known ke = Inr r \<and> (r = None \<or> (\<exists>p\<in>categories. r = Some p))"
  using detect_email_pattern_total by (auto simp: detect_known_def split: option.splits)

lemma name_tokens_empty: "name_tokens [] = []"
  by (simp add: name_tokens_def py_split_def py_lower_def)

lemma name_tokens_Unknown: "name_tokens ''Unknown'' = [''unknown'']"
  by (simp add: name_tokens_def py_split_def py_lower_def lower_char_def is_upper_az_def
        is_space_def in_range_def)

lemma website_domain_empty: "website_domain [] = None"
  by (simp add: website_domain_def re_search_def match_at_def domain_pattern_def)

lemma first_candidate:
  "map (\<lambda>format_str. py_format format_str (format_args f l fi li d)) email_formats
     = (f @ ''.'' @ l @ ''@'' @ d) # map (\<lambda>format_str. py_format format_str (format_args f l fi li d)) (tl email_formats)"
  by (simp add: email_formats_def py_format_def format_args_def)

lemma generate_likely_email_eq:
  "generate_likely_email name company_name company_website known_emails =
     (if length (name_tokens name) < 2 then Inr None
      else
        (case website_domain company_website of
           None \<Rightarrow> Inr None
         | Some d \<Rightarrow>
             (case detect_known known_emails of
                Inl e \<Rightarrow> Inl e
              | Inr pattern \<Rightarrow>
                  (case apply_pattern pattern (hd (name_tokens name)) (last (name_tokens name))
                          (take 1 (hd (name_tokens name))) (take 1 (last (name_tokens name))) d of
                     Some email \<Rightarrow> Inr (Some email)
                   | None \<Rightarrow>
                       Inr (Some (hd (name_tokens name) @ ''.'' @ last (name_tokens name)
                                    @ ''@'' @ d))))))"
proof (cases "length (name_tokens name) < 2")
  case True
  then show ?thesis
    by (auto simp: generate_likely_email_def name_tokens_def Let_def split: option.splits)
next
  case False
  then have ne: "name \<noteq> []" "name \<noteq> ''Unknown''"
    using name_tokens_empty name_tokens_Unknown by auto
  from False have tk: "name_tokens name \<noteq> []" by auto
  have ini: "(if s \<noteq> [] then [s ! 0] else []) = take 1 s" for s :: string
    by (cases s) auto
  show ?thesis
  proof (cases "company_website = []")
    case True
    then show ?thesis using website_domain_empty by (simp add: generate_likely_email_def)
  next
    case w: False
    show ?thesis
      using False ne w tk
      unfolding generate_likely_email_def Let_def ini first_candidate
      by (auto simp: website_domain_def name_tokens_def hd_conv_nth
            split: option.splits sum.splits)
  qed
qed

lemmas eval_chars = is_lower_az_def is_upper_az_def is_alpha_az_def is_digit_def is_space_def
  in_range_def lower_char_def not_slash_def

lemma website_domain_examples:
  "website_domain ''https://www.acme.com'' = Some ''acme.com''"
  "website_domain ''http://acme.com/about'' = Some ''acme.com''"
  "website_domain ''https://acme.com'' = Some ''acme.com''"
  "website_domain ''acme.com'' = None"
  by (simp_all add: website_domain_def re_search_def match_at_def domain_pattern_def
        match_group_def eval_chars)

lemma name_tokens_examples:
  "name_tokens ''Jane Doe'' = [''jane'', ''doe'']"
  "name_tokens ''Jane Q Doe'' = [''jane'', ''q'', ''doe'']"
  "name_tokens ''Solo'' = [''solo'']"
  by (simp_all add: name_tokens_def py_split_def py_lower_def eval_chars)

lemma detect_examples:
  "detect_email_pattern [''j.s@acme.com'', ''k.l@acme.com''] = Inr (Some ''first.last'')"
  "detect_email_pattern [''js@acme.com'', ''kl@acme.com''] = Inr (Some ''initials'')"
  "detect_email_pattern [''JSmith@acme.com'', ''KLee@acme.com''] = Inr (Some ''unknown'')"
  by (simp_all add: detect_email_pattern_def Let_def classify_username_def py_max_by_count_def
        re_match_def match_at_def first_initial_last_pattern_def eval_chars)

text \<open>
  Claim C2.  When the known emails are not empty and detection returns a concrete category
  (not \<open>None\<close>, not \<open>unknown\<close>), and the name has at least two tokens and the website
  yields a domain, the result is that category's template filled with the first and last
  name token, their initials and the extracted domain.  In particular, for the name
  \<open>Jane Doe\<close>, a website whose extracted domain is \<open>acme.com\<close> (such as
  \<open>https://www.acme.com\<close>) and the known emails \<open>j.s@acme.com\<close>, \<open>k.l@acme.com\<close>, the
  result is \<open>jane.doe@acme.com\<close>.
\<close>

theorem generate_applies_detected_pattern:
  "(known \<noteq> [] \<and> detect_email_pattern known = Inr (Some p) \<and> p \<noteq> ''unknown''
      \<and> 2 \<le> length (name_tokens name) \<and> website_domain w = Some d \<longrightarrow>
      generate_likely_email name c w (Some known) =
        Inr (Some
          (if p = ''first.last''
             then hd (name_tokens name) @ ''.'' @ last (name_tokens name) @ ''@'' @ d
           else if p = ''first_last''
             then hd (name_tokens name) @ ''_'' @ last (name_tokens name) @ ''@'' @ d
           else if p = ''initials''
             then take 1 (hd (name_tokens name)) @ take 1 (last (name_tokens name)) @ ''@'' @ d
           else take 1 (hd (name_tokens name)) @ last (name_tokens name) @ ''@'' @ d)))
   \<and> (website_domain w = Some ''acme.com'' \<longrightarrow>
        generate_likely_email ''Jane Doe'' c w (Some [''j.s@acme.com'', ''k.l@acme.com''])
          = Inr (Some ''jane.doe@acme.com''))
   \<and> website_domain ''https://www.acme.com'' = Some ''acme.com''
   \<and> website_domain ''http://acme.com/about'' = Some ''acme.com''"
proof (intro conjI impI)
  assume a: "known \<noteq> [] \<and> detect_email_pattern known = Inr (Some p) \<and> p \<noteq> ''unknown''
      \<and> 2 \<le> length (name_tokens name) \<and> website_domain w = Some d"
  then have dk: "detect_known (Some known) = Inr (Some p)"
    by (simp add: detect_known_def)
  from a detect_email_pattern_total [of known] have "p \<in> categories" by auto
  with a have p: "p = ''first.last'' \<or> p = ''first_last'' \<or> p = ''initials''
                    \<or> p = ''firstinitiallast''"
    by (auto simp: categories_def)
  from a dk p show "generate_likely_email name c w (Some known) =
        Inr (Some
          (if p = ''first.last''
             then hd (name_tokens name) @ ''.'' @ last (name_tokens name) @ ''@'' @ d
           else if p = ''first_last''
             then hd (name_tokens name) @ ''_'' @ last (name_tokens name) @ ''@'' @ d
           else if p = ''initials''
             then take 1 (hd (name_tokens name)) @ take 1 (last (name_tokens name)) @ ''@'' @ d
           else take 1 (hd (name_tokens name)) @ last (name_tokens name) @ ''@'' @ d))"
    by (auto simp: generate_likely_email_eq apply_pattern_def)
next
  assume "website_domain w = Some ''acme.com''"
  then show "generate_likely_email ''Jane Doe'' c w (Some [''j.s@acme.com'', ''k.l@acme.com''])
          = Inr (Some ''jane.doe@acme.com'')"
    by (simp add: generate_likely_email_eq name_tokens_examples detect_known_def
          detect_examples apply_pattern_def)
qed (simp_all add: website_domain_examples)

theorem generate_applies_detected_pattern_witness:
  "[''js@acme.com'', ''kl@acme.com''] \<noteq> []
   \<and> detect_email_pattern [''js@acme.com'', ''kl@acme.com''] = Inr (Some ''initials'')
   \<and> ''initials'' \<noteq> ''unknown''
   \<and> 2 \<le> length (name_tokens ''Jane Q Doe'')
   \<and> website_domain ''http://acme.com/about'' = Some ''acme.com''
   \<and> generate_likely_email ''Jane Q Doe'' ''Acme'' ''http://acme.com/about''
         (Some [''js@acme.com'', ''kl@acme.com'']) = Inr (Some ''jd@acme.com'')
   \<and> website_domain ''https://www.acme.com'' = Some ''acme.com''
   \<and> generate_likely_email ''Jane Doe'' ''Acme'' ''https://www.acme.com''
         (Some [''j.s@acme.com'', ''k.l@acme.com'']) = Inr (Some ''jane.doe@acme.com'')"
proof -
  have h1: "[''js@acme.com'', ''kl@acme.com''] \<noteq> []" by simp
  have h2: "detect_email_pattern [''js@acme.com'', ''kl@acme.com''] = Inr (Some ''initials'')"
    by (rule detect_examples)
  have h3: "''initials'' \<noteq> ''unknown''" by simp
  have h4: "2 \<le> length (name_tokens ''Jane Q Doe'')" by (simp add: name_tokens_examples)
  have h5: "website_domain ''http://acme.com/about'' = Some ''acme.com''"
    by (rule website_domain_examples)
  have h6: "website_domain ''https://www.acme.com'' = Some ''acme.com''"
    by (rule website_domain_examples)
  have r1: "generate_likely_email ''Jane Q Doe'' ''Acme'' ''http://acme.com/about''
         (Some [''js@acme.com'', ''kl@acme.com'']) = Inr (Some ''jd@acme.com'')"
    using generate_applies_detected_pattern
      [of "[''js@acme.com'', ''kl@acme.com'']" "''initials''" "''Jane Q Doe''"
          "''http://acme.com/about''" "''acme.com''" "''Acme''"]
      h1 h2 h4 h5 by (simp add: name_tokens_examples)
  have r2: "generate_likely_email ''Jane Doe'' ''Acme'' ''https://www.acme.com''
         (Some [''j.s@acme.com'', ''k.l@acme.com'']) = Inr (Some ''jane.doe@acme.com'')"
    using generate_applies_detected_pattern [of _ _ _ "''https://www.acme.com''" _ "''Acme''"] h6
    by blast
  show ?thesis
    by (intro conjI) (fact h1 h2 h3 h4 h5 r1 h6 r2)+
qed

text \<open>
  Claim C3.  The result is \<open>None\<close> (cannot generate) whenever the name has fewer than two
  whitespace tokens or no domain can be extracted from the website URL; for example for
  the name \<open>Solo\<close>.  Otherwise, when no concrete pattern is detected from the known emails
  (none given, detection returns \<open>None\<close> or \<open>unknown\<close>), the result is the first of the
  seven candidate templates, \<open>first.last@domain\<close>.
\<close>

theorem generate_cannot_or_default:
  "(length (name_tokens name) < 2 \<longrightarrow> generate_likely_email name c w ke = Inr None)
   \<and> (website_domain w = None \<longrightarrow> generate_likely_email name c w ke = Inr None)
   \<and> (2 \<le> length (name_tokens name) \<and> website_domain w = Some d
        \<and> (detect_known ke = Inr None \<or> detect_known ke = Inr (Some ''unknown'')) \<longrightarrow>
        generate_likely_email name c w ke
          = Inr (Some (hd (name_tokens name) @ ''.'' @ last (name_tokens name) @ ''@'' @ d))
        \<and> hd (name_tokens name) @ ''.'' @ last (name_tokens name) @ ''@'' @ d
          = py_format (hd email_formats)
              (format_args (hd (name_tokens name)) (last (name_tokens name))
                 (take 1 (hd (name_tokens name))) (take 1 (last (name_tokens name))) d))
   \<and> length email_formats = 7
   \<and> generate_likely_email ''Solo'' c ''https://acme.com'' ke = Inr None
   \<and> generate_likely_email ''Solo'' c ''acme.com'' ke = Inr None"
proof (intro conjI impI)
  assume "length (name_tokens name) < 2"
  then show "generate_likely_email name c w ke = Inr None"
    by (simp add: generate_likely_email_eq)
next
  assume "website_domain w = None"
  then show "generate_likely_email name c w ke = Inr None"
    by (simp add: generate_likely_email_eq)
next
  assume a: "2 \<le> length (name_tokens name) \<and> website_domain w = Some d
        \<and> (detect_known ke = Inr None \<or> detect_known ke = Inr (Some ''unknown''))"
  then show "generate_likely_email name c w ke
          = Inr (Some (hd (name_tokens name) @ ''.'' @ last (name_tokens name) @ ''@'' @ d))"
    by (auto simp: generate_likely_email_eq apply_pattern_def)
next
  show "hd (name_tokens name) @ ''.'' @ last (name_tokens name) @ ''@'' @ d
          = py_format (hd email_formats)
              (format_args (hd (name_tokens name)) (last (name_tokens name))
                 (take 1 (hd (name_tokens name))) (take 1 (last (name_tokens name))) d)"
    by (simp add: email_formats_def py_format_def format_args_def)
next
  show "length email_formats = 7" by (simp add: email_formats_def)
next
  show "generate_likely_email ''Solo'' c ''https://acme.com'' ke = Inr None"
    by (simp add: generate_likely_email_eq name_tokens_examples)
next
  show "generate_likely_email ''Solo'' c ''acme.com'' ke = Inr None"
    by (simp add: generate_likely_email_eq name_tokens_examples)
qed

theorem generate_cannot_or_default_witness:
  "length (name_tokens ''Solo'') < 2
   \<and> generate_likely_email ''Solo'' ''Acme'' ''https://acme.com'' None = Inr None
   \<and> website_domain ''acme.com'' = None
   \<and> generate_likely_email ''Jane Doe'' ''Acme'' ''acme.com'' None = Inr None
   \<and> 2 \<le> length (name_tokens ''Jane Q Doe'')
   \<and> website_domain ''https://www.acme.com'' = Some ''acme.com''
   \<and> detect_known (Some [''JSmith@acme.com'', ''KLee@acme.com'']) = Inr (Some ''unknown'')
   \<and> generate_likely_email ''Jane Q Doe'' ''Acme'' ''https://www.acme.com''
        (Some [''JSmith@acme.com'', ''KLee@acme.com'']) = Inr (Some ''jane.doe@acme.com'')
   \<and> detect_known None = Inr None
   \<and> generate_likely_email ''Jane Q Doe'' ''Acme'' ''https://www.acme.com'' None
        = Inr (Some ''jane.doe@acme.com'')"
proof -
  have h1: "length (name_tokens ''Solo'') < 2" by (simp add: name_tokens_examples)
  have h2: "website_domain ''acme.com'' = None" by (rule website_domain_examples)
  have h3: "2 \<le> length (name_tokens ''Jane Q Doe'')" by (simp add: name_tokens_examples)
  have h4: "website_domain ''https://www.acme.com'' = Some ''acme.com''"
    by (rule website_domain_examples)
  have h5: "detect_known (Some [''JSmith@acme.com'', ''KLee@acme.com'']) = Inr (Some ''unknown'')"
    by (simp add: detect_known_def detect_examples)
  have h6: "detect_known None = Inr None" by (simp add: detect_known_def)
  have r1: "generate_likely_email ''Solo'' ''Acme'' ''https://acme.com'' None = Inr None"
    using generate_cannot_or_default [of "''Solo''" "''Acme''" "''https://acme.com''" None] h1 by blast
  have r2: "generate_likely_email ''Jane Doe'' ''Acme'' ''acme.com'' None = Inr None"
    using generate_cannot_or_default [of "''Jane Doe''" "''Acme''" "''acme.com''" None] h2 by blast
  have r3: "generate_likely_email ''Jane Q Doe'' ''Acme'' ''https://www.acme.com''
        (Some [''JSmith@acme.com'', ''KLee@acme.com'']) = Inr (Some ''jane.doe@acme.com'')"
    using generate_cannot_or_default [of "''Jane Q Doe''" "''Acme''" "''https://www.acme.com''"
                "Some [''JSmith@acme.com'', ''KLee@acme.com'']" "''acme.com''"] h3 h4 h5
    by (simp add: name_tokens_examples)
  have r4: "generate_likely_email ''Jane Q Doe'' ''Acme'' ''https://www.acme.com'' None
        = Inr (Some ''jane.doe@acme.com'')"
    using generate_cannot_or_default [of "''Jane Q Doe''" "''Acme''" "''https://www.acme.com''" None "''acme.com''"]
      h3 h4 h6 by (simp add: name_tokens_examples)
  show ?thesis
    by (intro conjI) (fact h1 r1 h2 r2 h3 h4 h5 r3 h6 r4)+
qed

section \<open>Properties of the matcher and of email extraction\<close>

lemma starts_with_iff: "starts_with p s \<longleftrightarrow> take (length p) s = p"
  by (induction p s rule: starts_with.induct) auto

lemma rep_sound:
  "rep c lo hi n s k = Some res \<Longrightarrow>
     \<exists>w s'. s = w @ s' \<and> (\<forall>x\<in>set w. c x) \<and> lo \<le> length w
             \<and> (case hi of None \<Rightarrow> True | Some h \<Rightarrow> length w \<le> h)
             \<and> k (n + length w) s' = Some res"
proof (induction s arbitrary: lo hi n)
  case Nil
  then show ?case by (auto split: if_splits option.splits)
next
  case (Cons x xs)
  show ?case
  proof (cases "rep c (lo - 1) (map_option (\<lambda>h. h - 1) hi) (Suc n) xs k = Some res
                  \<and> c x \<and> hi \<noteq> Some 0")
    case True
    from Cons.IH [OF True [THEN conjunct1]] obtain w s' where
      w: "xs = w @ s'" "\<forall>x\<in>set w. c x" "lo - 1 \<le> length w"
         "case map_option (\<lambda>h. h - 1) hi of None \<Rightarrow> True | Some h \<Rightarrow> length w \<le> h"
         "k (Suc n + length w) s' = Some res"
      by blast
    have "case hi of None \<Rightarrow> True | Some h \<Rightarrow> length (x # w) \<le> h"
      using w(4) True by (cases hi) auto
    with w True show ?thesis
      by (intro exI [of _ "x # w"] exI [of _ s']) auto
  next
    case False
    with Cons.prems have "lo = 0 \<and> k n (x # xs) = Some res"
      by (auto split: if_splits option.splits)
    then show ?thesis
      by (intro exI [of _ "[]"] exI [of _ "x # xs"]) (auto split: option.splits)
  qed
qed

lemma re_go_sound:
  "re_go r n s cp k = Some res \<Longrightarrow>
     \<exists>w s' cp'. s = w @ s' \<and> w \<in> lang r \<and> k (n + length w) s' cp' = Some res"
proof (induction r n s cp k rule: re_go.induct)
  case (1 n s cp k)
  then show ?case by auto
next
  case (2 c n s cp k)
  then obtain xs where "s = [c] @ xs" "k (n + length [c]) xs cp = Some res"
    by (cases s) (auto split: if_splits)
  moreover have "[c] \<in> lang (Chr c)" by simp
  ultimately show ?case by blast
next
  case (3 l n s cp k)
  then have "take (length l) s = l" "k (n + length l) (drop (length l) s) cp = Some res"
    by (auto simp: starts_with_iff split: if_splits)
  moreover from this(1) have "s = l @ drop (length l) s"
    by (metis append_take_drop_id)
  moreover have "l \<in> lang (Lit l)" by simp
  ultimately show ?case by blast
next
  case (4 c n s cp k)
  then obtain x xs where "s = [x] @ xs" "c x" "k (n + length [x]) xs cp = Some res"
    by (cases s) (auto split: if_splits)
  moreover from this(2) have "[x] \<in> lang (Cls c)" by simp
  ultimately show ?case by blast
next
  case (5 a b n s cp k)
  from "5.prems" have "re_go a n s cp (\<lambda>n' s' cp'. re_go b n' s' cp' k) = Some res" by simp
  from "5.IH"(2) [OF this] obtain u s1 cp1 where
    u: "s = u @ s1" "u \<in> lang a" "re_go b (n + length u) s1 cp1 k = Some res"
    by blast
  from "5.IH"(1) [OF u(3)] obtain v s2 cp2 where
    v: "s1 = v @ s2" "v \<in> lang b" "k (n + length u + length v) s2 cp2 = Some res"
    by blast
  show ?case
    using u v by (intro exI [of _ "u @ v"] exI [of _ s2] exI [of _ cp2]) (auto simp: add.assoc)
next
  case (6 a n s cp k)
  show ?case
  proof (cases "re_go a n s cp k")
    case None
    with "6.prems" have "k n s cp = Some res" by simp
    then show ?thesis by (intro exI [of _ "[]"] exI [of _ s] exI [of _ cp]) simp
  next
    case (Some r)
    with "6.prems" have "re_go a n s cp k = Some res" by simp
    from "6.IH" [OF this] obtain w s' cp' where
      "s = w @ s'" "w \<in> lang a" "k (n + length w) s' cp' = Some res" by blast
    moreover from this(2) have "w \<in> lang (Opt a)" by simp
    ultimately show ?thesis by blast
  qed
next
  case (7 c lo hi n s cp k)
  then have "rep c lo hi n s (\<lambda>n' s'. k n' s' cp) = Some res" by simp
  from rep_sound [OF this] obtain w s' where
    "s = w @ s'" "\<forall>x\<in>set w. c x" "lo \<le> length w"
    "case hi of None \<Rightarrow> True | Some h \<Rightarrow> length w \<le> h" "k (n + length w) s' cp = Some res"
    by blast
  moreover from this(2,3,4) have "w \<in> lang (Rep c lo hi)" by simp
  ultimately show ?case by blast
next
  case (8 i a n s cp k)
  from "8.prems" have "re_go a n s cp (\<lambda>n' s' cp'. k n' s' ((i, take (n' - n) s) # cp')) = Some res"
    by simp
  from "8.IH" [OF this] obtain w s' cp' where
    "s = w @ s'" "w \<in> lang a" "k (n + length w) s' ((i, take (n + length w - n) s) # cp') = Some res"
    by blast
  moreover from this(2) have "w \<in> lang (Grp i a)" by simp
  ultimately show ?case by blast
next
  case (9 n s cp k)
  then show ?case by (auto split: if_splits)
next
  case (10 n s cp k)
  then have "k n s cp = Some res" by (auto split: if_splits)
  then show ?case by (intro exI [of _ "[]"] exI [of _ s] exI [of _ cp]) simp
qed

lemma match_at_sound:
  assumes "match_at r n s = Some (e, cp)"
  shows "take (e - n) s \<in> lang r"
proof -
  from re_go_sound [OF assms [unfolded match_at_def]] obtain w s' where
    "s = w @ s'" "w \<in> lang r" "e = n + length w" by auto
  then show ?thesis by simp
qed

lemma findall_go_sound:
  "(t, cp) \<in> set (findall_go r n skip s) \<Longrightarrow> t \<in> lang r"
proof (induction r n skip s rule: findall_go.induct)
  case (1 r n skip)
  show ?case
  proof (cases "skip = 0")
    case False
    with "1.prems" show ?thesis by simp
  next
    case True
    show ?thesis
    proof (cases "match_at r n []")
      case None
      with True "1.prems" show ?thesis by simp
    next
      case (Some ecp)
      obtain e cp' where ecp: "ecp = (e, cp')" by (cases ecp)
      with True "1.prems" Some have "t = []" by simp
      with match_at_sound [of r n "[]" e cp'] Some ecp show ?thesis by simp
    qed
  qed
next
  case (2 r n skip x xs)
  show ?case
  proof (cases "0 < skip")
    case True
    with 2 show ?thesis by simp
  next
    case False
    show ?thesis
    proof (cases "match_at r n (x # xs)")
      case None
      with False 2 show ?thesis by simp
    next
      case (Some ecp)
      obtain e cp' where ecp: "ecp = (e, cp')" by (cases ecp)
      from "2.prems" False Some ecp
      have "(t, cp) = (take (e - n) (x # xs), cp')
              \<or> (t, cp) \<in> set (findall_go r (Suc n) (e - n - 1) xs)"
        by simp
      then show ?thesis
      proof
        assume "(t, cp) = (take (e - n) (x # xs), cp')"
        with match_at_sound [of r n "x # xs" e cp'] Some ecp show ?thesis by simp
      next
        assume "(t, cp) \<in> set (findall_go r (Suc n) (e - n - 1) xs)"
        with "2.IH"(3) False Some ecp show ?thesis by simp
      qed
    qed
  qed
qed

lemma re_findall_sound: "t \<in> set (map fst (re_findall r s)) \<Longrightarrow> t \<in> lang r"
  using findall_go_sound by (fastforce simp: re_findall_def)

lemma ends_with_iff: "ends_with suffix s \<longleftrightarrow> (\<exists>p. s = p @ suffix)"
proof
  assume "ends_with suffix s"
  then have "s = take (length s - length suffix) s @ suffix"
    unfolding ends_with_def by (metis append_take_drop_id)
  then show "\<exists>p. s = p @ suffix" ..
next
  assume "\<exists>p. s = p @ suffix"
  then show "ends_with suffix s" by (auto simp: ends_with_def)
qed

lemma starts_with_append_iff: "starts_with p s \<longleftrightarrow> (\<exists>q. s = p @ q)"
  by (induction p s rule: starts_with.induct) auto

lemma contains_iff: "contains needle s \<longleftrightarrow> (\<exists>p q. s = p @ needle @ q)"
proof (induction s)
  case Nil
  show ?case by auto
next
  case (Cons c cs)
  show ?case
  proof
    assume "contains needle (c # cs)"
    then consider "starts_with needle (c # cs)" | "contains needle cs" by auto
    then show "\<exists>p q. c # cs = p @ needle @ q"
    proof cases
      case 1
      then obtain q where "c # cs = needle @ q" by (auto simp: starts_with_append_iff)
      then have "c # cs = [] @ needle @ q" by simp
      then show ?thesis by blast
    next
      case 2
      with Cons.IH obtain p q where "cs = p @ needle @ q" by blast
      then have "c # cs = (c # p) @ needle @ q" by simp
      then show ?thesis by blast
    qed
  next
    assume "\<exists>p q. c # cs = p @ needle @ q"
    then obtain p q where pq: "c # cs = p @ needle @ q" by blast
    show "contains needle (c # cs)"
    proof (cases p)
      case Nil
      with pq have "starts_with needle (c # cs)" by (auto simp: starts_with_append_iff)
      then show ?thesis by simp
    next
      case (Cons a p')
      with pq have "cs = p' @ needle @ q" by simp
      with Cons.IH have "contains needle cs" by blast
      then show ?thesis by simp
    qed
  qed
qed

lemma split_sep_absent: "sep \<notin> set r \<Longrightarrow> split_sep sep r = [r]"
  by (induction r) auto

lemma split_sep_once:
  "sep \<notin> set l \<Longrightarrow> sep \<notin> set r \<Longrightarrow> split_sep sep (l @ sep # r) = [l, r]"
  by (induction l) (auto simp: split_sep_absent)

lemma one_separator:
  assumes "p @ sep # q = l @ sep # r" "sep \<notin> set l" "sep \<notin> set r"
  shows "p = l \<and> q = r"
proof -
  have "count_list (l @ sep # r) sep = 1" using assms(2,3) by simp
  then have "count_list (p @ sep # q) sep = 1" using assms(1) by simp
  then have "sep \<notin> set p" by (auto simp: count_list_0_iff [symmetric] simp del: count_list_0_iff)
  from split_unique [OF assms(1) this assms(2)] assms(1) show ?thesis by simp
qed

lemma contains_after_separator:
  assumes "sep \<notin> set l" "sep \<notin> set r"
  shows "contains (sep # w) (l @ sep # r) \<longleftrightarrow> starts_with w r"
proof
  assume "contains (sep # w) (l @ sep # r)"
  then obtain p q where "l @ sep # r = p @ sep # (w @ q)" by (auto simp: contains_iff)
  with one_separator [of p sep "w @ q" l r] assms have "r = w @ q" by simp
  then show "starts_with w r" by (auto simp: starts_with_append_iff)
next
  assume "starts_with w r"
  then obtain q where "r = w @ q" by (auto simp: starts_with_append_iff)
  then have "l @ sep # r = l @ (sep # w) @ q" by simp
  then show "contains (sep # w) (l @ sep # r)" unfolding contains_iff by blast
qed

lemma contains_before_separator:
  assumes "sep \<notin> set l" "sep \<notin> set r"
  shows "contains (w @ [sep]) (l @ sep # r) \<longleftrightarrow> ends_with w l"
proof
  assume "contains (w @ [sep]) (l @ sep # r)"
  then obtain p q where "l @ sep # r = (p @ w) @ sep # q" by (auto simp: contains_iff)
  with one_separator [of "p @ w" sep q l r] assms have "l = p @ w" by simp
  then show "ends_with w l" by (auto simp: ends_with_iff)
next
  assume "ends_with w l"
  then obtain p where "l = p @ w" by (auto simp: ends_with_iff)
  then have "l @ sep # r = p @ (w @ [sep]) @ r" by simp
  then show "contains (w @ [sep]) (l @ sep # r)" unfolding contains_iff by blast
qed

lemma email_pattern_shape:
  assumes "t \<in> lang email_pattern"
  shows "\<exists>l r. t = l @ CHR ''@'' # r \<and> CHR ''@'' \<notin> set l \<and> CHR ''@'' \<notin> set r \<and> l \<noteq> []"
proof -
  have at: "\<not> email_local_char CHR ''@''" "\<not> email_domain_char CHR ''@''"
    "\<not> is_alpha_az CHR ''@''"
    by (simp_all add: email_local_char_def email_domain_char_def is_alpha_az_def
          is_lower_az_def is_upper_az_def is_digit_def in_range_def)
  from assms obtain l d tld where
    t: "t = l @ [CHR ''@''] @ d @ [CHR ''.''] @ tld"
    and l: "\<forall>x\<in>set l. email_local_char x" "1 \<le> length l"
    and d: "\<forall>x\<in>set d. email_domain_char x"
    and tld: "\<forall>x\<in>set tld. is_alpha_az x"
    by (auto simp: email_pattern_def)
  have "CHR ''@'' \<notin> set l" using l(1) at by blast
  moreover have "CHR ''@'' \<notin> set (d @ [CHR ''.''] @ tld)" using d tld at by auto
  moreover have "l \<noteq> []" using l(2) by auto
  moreover have "t = l @ CHR ''@'' # (d @ [CHR ''.''] @ tld)" using t by simp
  ultimately show ?thesis by blast
qed

lemma filter_emails_filter:
  "filter_emails es =
     filter (\<lambda>email. \<not> (contains ''@example'' email \<or> contains ''@domain'' email
                          \<or> contains ''@email'' email)
                    \<and> \<not> (contains ''.jpg@'' email \<or> contains ''.png@'' email
                          \<or> contains ''.gif@'' email)) es"
  by (induction es) auto

lemma matched_email_kept:
  assumes "t \<in> lang email_pattern"
  shows "well_formed t"
    and "\<not> (contains ''@example'' t \<or> contains ''@domain'' t \<or> contains ''@email'' t)
         \<and> \<not> (contains ''.jpg@'' t \<or> contains ''.png@'' t \<or> contains ''.gif@'' t)
         \<longleftrightarrow> kept_email t"
proof -
  from email_pattern_shape [OF assms] obtain l r where
    t: "t = l @ CHR ''@'' # r" and n: "CHR ''@'' \<notin> set l" "CHR ''@'' \<notin> set r"
    by blast
  have sp: "split_sep CHR ''@'' t = [l, r]" unfolding t using n by (rule split_sep_once)
  then show "well_formed t" by (simp add: well_formed_def)
  have lp: "local_part t = l" and dp: "domain_part t = r"
    using sp by (simp_all add: local_part_def domain_part_def)
  have a: "contains (CHR ''@'' # w) t \<longleftrightarrow> starts_with w r" for w
    unfolding t using n by (rule contains_after_separator)
  have b: "contains (w @ [CHR ''@'']) t \<longleftrightarrow> ends_with w l" for w
    unfolding t using n by (rule contains_before_separator)
  show "\<not> (contains ''@example'' t \<or> contains ''@domain'' t \<or> contains ''@email'' t)
         \<and> \<not> (contains ''.jpg@'' t \<or> contains ''.png@'' t \<or> contains ''.gif@'' t)
         \<longleftrightarrow> kept_email t"
    using a [of "''example''"] a [of "''domain''"] a [of "''email''"]
      b [of "''.jpg''"] b [of "''.png''"] b [of "''.gif''"]
    unfolding kept_email_def lp dp by simp
qed

lemma extract_emails_eq:
  "extract_emails text = filter kept_email (map fst (re_findall email_pattern text))"
proof (cases "text = []")
  case True
  then show ?thesis
    by (simp add: extract_emails_def re_findall_def match_at_def email_pattern_def)
next
  case False
  have "filter_emails (map fst (re_findall email_pattern text))
          = filter kept_email (map fst (re_findall email_pattern text))"
    unfolding filter_emails_filter
    by (rule filter_cong [OF refl]) (use matched_email_kept(2) re_findall_sound in blast)
  with False show ?thesis by (simp add: extract_emails_def)
qed

lemmas eval_email = extract_emails_def re_findall_def match_at_def email_pattern_def
  email_local_char_def email_domain_char_def is_alpha_az_def is_lower_az_def is_upper_az_def
  is_digit_def in_range_def

text \<open>
  The claim C7 as stated fails: on a text with the same address twice, whose domain
  \<open>freemail.com\<close> contains \<open>email\<close>, \<open>_extract_emails\<close> returns the address twice.
\<close>

theorem extract_emails_counterexample:
  "extract_emails ''bob@freemail.com bob@freemail.com''
     = [''bob@freemail.com'', ''bob@freemail.com'']
   \<and> \<not> distinct (extract_emails ''bob@freemail.com bob@freemail.com'')
   \<and> domain_part ''bob@freemail.com'' = ''freemail.com''
   \<and> contains ''email'' ''freemail.com''"
proof -
  have e: "extract_emails ''bob@freemail.com bob@freemail.com''
             = [''bob@freemail.com'', ''bob@freemail.com'']"
    by (simp add: eval_email)
  have d: "domain_part ''bob@freemail.com'' = ''freemail.com''"
    by (simp add: domain_part_def)
  have c: "contains ''email'' ''freemail.com''" by simp
  have n: "\<not> distinct (extract_emails ''bob@freemail.com bob@freemail.com'')"
    unfolding e by simp
  show ?thesis by (intro conjI) (fact e n d c)+
qed

text \<open>
  Claim C7, as the code has it.  For every input text, \<open>_extract_emails\<close> returns the
  matches of the email pattern in the order of the text, repetitions included, except
  those it filters out; every address it returns has exactly one \<open>@\<close>, a domain that
  does not start with \<open>example\<close>, \<open>domain\<close> or \<open>email\<close>, and a local part that does not
  end in \<open>.jpg\<close>, \<open>.png\<close> or \<open>.gif\<close>.  Duplicates are removed where the addresses are
  aggregated; \<open>extract_emails_from_text\<close> of \<open>EmailExtractor\<close> returns distinct addresses.
\<close>

theorem extract_emails_filtered:
  "extract_emails text = filter kept_email (map fst (re_findall email_pattern text))
   \<and> (\<forall>e\<in>set (extract_emails text).
         well_formed e
         \<and> \<not> starts_with ''example'' (domain_part e)
         \<and> \<not> starts_with ''domain'' (domain_part e)
         \<and> \<not> starts_with ''email'' (domain_part e)
         \<and> \<not> ends_with ''.jpg'' (local_part e)
         \<and> \<not> ends_with ''.png'' (local_part e)
         \<and> \<not> ends_with ''.gif'' (local_part e))
   \<and> distinct (extract_emails_from_text text)"
proof -
  have a: "extract_emails text = filter kept_email (map fst (re_findall email_pattern text))"
    by (rule extract_emails_eq)
  have b: "\<forall>e\<in>set (extract_emails text).
         well_formed e
         \<and> \<not> starts_with ''example'' (domain_part e)
         \<and> \<not> starts_with ''domain'' (domain_part e)
         \<and> \<not> starts_with ''email'' (domain_part e)
         \<and> \<not> ends_with ''.jpg'' (local_part e)
         \<and> \<not> ends_with ''.png'' (local_part e)
         \<and> \<not> ends_with ''.gif'' (local_part e)"
  proof
    fix e assume "e \<in> set (extract_emails text)"
    then have k: "kept_email e" and m: "e \<in> set (map fst (re_findall email_pattern text))"
      by (simp_all add: extract_emails_eq)
    from m have "e \<in> lang email_pattern" by (rule re_findall_sound)
    then have "well_formed e" by (rule matched_email_kept(1))
    with k show "well_formed e
         \<and> \<not> starts_with ''example'' (domain_part e)
         \<and> \<not> starts_with ''domain'' (domain_part e)
         \<and> \<not> starts_with ''email'' (domain_part e)
         \<and> \<not> ends_with ''.jpg'' (local_part e)
         \<and> \<not> ends_with ''.png'' (local_part e)
         \<and> \<not> ends_with ''.gif'' (local_part e)"
      by (simp add: kept_email_def)
  qed
  have c: "distinct (extract_emails_from_text text)"
    by (simp add: extract_emails_from_text_def py_list_set_def)
  from a b c show ?thesis by blast
qed

theorem extract_emails_filtered_witness:
  "extract_emails ''mail bob@freemail.com, x@example.com or logo.png@2x.com; y@mydomain.org''
     = [''bob@freemail.com'', ''y@mydomain.org'']
   \<and> map fst (re_findall email_pattern
         ''mail bob@freemail.com, x@example.com or logo.png@2x.com; y@mydomain.org'')
     = [''bob@freemail.com'', ''x@example.com'', ''logo.png@2x.com'', ''y@mydomain.org'']
   \<and> well_formed ''bob@freemail.com''
   \<and> \<not> starts_with ''email'' (domain_part ''bob@freemail.com'')
   \<and> \<not> ends_with ''.png'' (local_part ''y@mydomain.org'')
   \<and> starts_with ''example'' (domain_part ''x@example.com'')
   \<and> ends_with ''.png'' (local_part ''logo.png@2x.com'')"
proof -
  let ?text = "''mail bob@freemail.com, x@example.com or logo.png@2x.com; y@mydomain.org''"
  have m: "map fst (re_findall email_pattern ?text)
     = [''bob@freemail.com'', ''x@example.com'', ''logo.png@2x.com'', ''y@mydomain.org'']"
    by (simp add: eval_email)
  have k: "filter kept_email
             [''bob@freemail.com'', ''x@example.com'', ''logo.png@2x.com'', ''y@mydomain.org'']
           = [''bob@freemail.com'', ''y@mydomain.org'']"
    by (simp add: kept_email_def domain_part_def local_part_def ends_with_def)
  have e: "extract_emails ?text = [''bob@freemail.com'', ''y@mydomain.org'']"
    using extract_emails_filtered [of ?text] unfolding m k by blast
  have i1: "''bob@freemail.com'' \<in> set (extract_emails ?text)"
    and i2: "''y@mydomain.org'' \<in> set (extract_emails ?text)"
    unfolding e by simp_all
  have a: "well_formed ''bob@freemail.com''"
    and b: "\<not> starts_with ''email'' (domain_part ''bob@freemail.com'')"
    using extract_emails_filtered [of ?text] i1 by blast+
  have c: "\<not> ends_with ''.png'' (local_part ''y@mydomain.org'')"
    using extract_emails_filtered [of ?text] i2 by blast
  have d: "starts_with ''example'' (domain_part ''x@example.com'')"
    by (simp add: domain_part_def)
  have f: "ends_with ''.png'' (local_part ''logo.png@2x.com'')"
    by (simp add: local_part_def ends_with_def)
  show ?thesis by (intro conjI) (fact e m a b c d f)+
qed

section \<open>Properties of the crawl\<close>

lemma map_of_dict_set: "map_of (dict_set d k v) = (map_of d)(k \<mapsto> v)"
  by (induction d) (auto simp: fun_eq_iff)

lemma map_of_merge_social:
  "map_of (merge_social d sm) platform =
     (case map_of d platform of Some handle \<Rightarrow> Some handle | None \<Rightarrow> map_of sm platform)"
proof (induction sm arbitrary: d)
  case Nil
  show ?case by (simp split: option.splits)
next
  case (Cons kv sm)
  obtain k v where kv: "kv = (k, v)" by (cases kv)
  show ?case
    unfolding kv using Cons.IH [of d] Cons.IH [of "dict_set d k v"]
    by (auto simp: map_of_dict_set split: option.splits)
qed

lemma map_of_dict_update_distinct:
  "distinct (map fst sm) \<Longrightarrow>
     map_of (dict_update d sm) platform =
       (case map_of sm platform of Some handle \<Rightarrow> Some handle | None \<Rightarrow> map_of d platform)"
proof (induction sm arbitrary: d)
  case Nil
  show ?case by simp
next
  case (Cons kv sm)
  obtain k v where kv: "kv = (k, v)" by (cases kv)
  from Cons.prems kv have d: "distinct (map fst sm)" and n: "map_of sm k = None"
    by (auto simp: map_of_eq_None_iff)
  show ?case
    unfolding kv using Cons.IH [OF d, of "dict_set d k v"] n
    by (auto simp: map_of_dict_set split: option.splits)
qed

lemma merge_page_fields:
  "emails (merge_page ci info) = emails ci @ reported_emails info"
  "phone_numbers (merge_page ci info) = phone_numbers ci @ reported_phones info"
  "map_of (social_media (merge_page ci info)) platform =
     (case map_of (social_media ci) platform of
        Some handle \<Rightarrow> Some handle
      | None \<Rightarrow> map_of (reported_social info) platform)"
  by (auto simp: merge_page_def Let_def reported_emails_def reported_phones_def
        reported_social_def map_of_merge_social split: option.splits)

lemma merge_page_no_content: "merge_page ci no_content = ci"
  by (simp add: merge_page_def no_content_def)

lemma retained_refl: "retained ci ci"
  by (simp add: retained_def)

lemma retained_trans: "retained a b \<Longrightarrow> retained b c \<Longrightarrow> retained a c"
  unfolding retained_def by (metis append.assoc)

lemma retained_merge_page: "retained ci (merge_page ci info)"
  by (simp add: retained_def merge_page_fields)

lemma contact_loop_retained: "contact_loop acp ci links = (x, ci') \<Longrightarrow> retained ci ci'"
proof (induction links arbitrary: ci)
  case Nil
  then show ?case by (simp add: retained_refl)
next
  case (Cons l links)
  show ?case
  proof (cases "acp l")
    case (Inl e)
    with Cons.prems show ?thesis by (simp add: retained_refl)
  next
    case (Inr info)
    with Cons.prems have "contact_loop acp (merge_page ci info) links = (x, ci')" by simp
    from Cons.IH [OF this] retained_merge_page [of ci info] show ?thesis
      by (rule retained_trans [rotated])
  qed
qed

lemma contact_loop_skip:
  "acp l = Inr no_content \<Longrightarrow> contact_loop acp ci (l # rest) = contact_loop acp ci rest"
  by (simp add: merge_page_no_content)

lemma contact_loop_ok:
  "\<forall>l\<in>set links. acp l = Inr (info l) \<Longrightarrow>
     contact_loop acp ci links = (None, foldl merge_page ci (map info links))"
  by (induction links arbitrary: ci) auto

lemma foldl_merge_page_fields:
  "emails (foldl merge_page ci infos) = emails ci @ concat (map reported_emails infos)"
  "phone_numbers (foldl merge_page ci infos)
     = phone_numbers ci @ concat (map reported_phones infos)"
  "map_of (social_media (foldl merge_page ci infos)) platform
     = first_report (map_of (social_media ci) # map (\<lambda>i. map_of (reported_social i)) infos)
         platform"
  by (induction infos arbitrary: ci) (auto simp: merge_page_fields split: option.splits)

lemma make_request_cases:
  "make_request get url =
     (case get url of
        Raises e \<Rightarrow> None
      | Responds r \<Rightarrow> if status_code r = 200 then Some r else None)"
  by (simp add: make_request_def)

lemma analyze_contact_page_spec_failed:
  "make_request get l = None \<Longrightarrow> analyze_contact_page_spec get esm l = Inr no_content"
  by (simp add: analyze_contact_page_spec_def no_content_def)

lemmas eval_extract = extract_emails_def extract_phone_numbers_def re_findall_def match_at_def
  email_pattern_def phone_pattern_def email_local_char_def email_domain_char_def phone_sep_def
  is_alpha_az_def is_lower_az_def is_upper_az_def is_digit_def is_space_def in_range_def
  group_or_empty_def

lemma demo_root_signals:
  "extract_emails demo_root_text = [''info@acme.com'']"
  "extract_phone_numbers demo_root_text = [''+44 123-456-7890'']"
  by (simp_all add: demo_root_text_def eval_extract)

lemma demo_contact_signals:
  "extract_emails demo_contact_text = [''info@acme.com'', ''sales@acme.com'']"
  "extract_phone_numbers demo_contact_text
     = [''+44 123.456.7890'', ''123.456.7890'', ''(123) 456 7890'']"
  by (simp_all add: demo_contact_text_def eval_extract)

lemma demo_formats:
  "format_phone_number ''+44 123-456-7890'' = ''+44 123-456-7890''"
  "format_phone_number ''+44 123.456.7890'' = ''+44 123.456.7890''"
  "format_phone_number ''123.456.7890'' = ''(123) 456-7890''"
  "format_phone_number ''(123) 456 7890'' = ''(123) 456-7890''"
  "format_phone_number ''(123) 456-7890'' = ''(123) 456-7890''"
  by (simp_all add: format_phone_number_def strip_non_digits_def py_slice_def is_digit_def
        in_range_def)

lemma demo_texts_differ: "demo_root_text \<noteq> demo_contact_text"
  "demo_contact_text \<noteq> demo_root_text" "demo_contact_text \<noteq> []"
  "demo_root_text \<noteq> []"
  by (simp_all add: demo_root_text_def demo_contact_text_def)

lemma demo_result:
  "analyze_website demo_env (Some ''https://acme.com'') =
     Inr (Contact_info
       \<lparr>emails = [''info@acme.com'', ''sales@acme.com''],
        phone_numbers = [''+44 123-456-7890'', ''+44 123.456.7890'', ''(123) 456-7890''],
        social_media = [(''twitter'', ''acme''), (''facebook'', ''acme'')]\<rparr>)"
  by (simp add: analyze_website_def analyze_try_def make_request_def demo_env_def demo_base_def
        with_spec_pages_def demo_get_def demo_social_def analyze_contact_page_spec_def
        merge_page_def remove_duplicates_def py_list_set_def Let_def demo_root_signals
        demo_contact_signals demo_formats demo_texts_differ)

lemma analyze_website_completes:
  assumes "url \<noteq> []"
    and "make_request (http_get env) url = Some response"
    and "parse_html env (resp_text response) = Inr soup"
    and "extract_social_media env (resp_text response) = Inr sm"
    and "find_contact_pages env url soup = Inr links"
    and "\<forall>l\<in>set (take 3 links). analyze_contact_page env l = Inr (info l)"
  shows "analyze_website env (Some url) =
           Inr (Contact_info (remove_duplicates
             (foldl merge_page
                \<lparr>emails = extract_emails (resp_text response),
                 phone_numbers = extract_phone_numbers (resp_text response),
                 social_media = dict_update [] sm\<rparr>
                (map info (take 3 links)))))"
  using assms(1-5) contact_loop_ok [OF assms(6)]
  by (simp add: analyze_website_def analyze_try_def Let_def)

lemma remove_duplicates_fields:
  "emails (remove_duplicates ci) = py_list_set (emails ci)"
  "phone_numbers (remove_duplicates ci) = py_list_set (map format_phone_number (phone_numbers ci))"
  "social_media (remove_duplicates ci) = social_media ci"
  by (simp_all add: remove_duplicates_def Let_def)

lemma same_digits_same_format:
  assumes "strip_non_digits p = strip_non_digits q"
    and "length (strip_non_digits p) = 10 \<or> length (strip_non_digits p) = 11"
  shows "format_phone_number p = format_phone_number q"
  using assms by (auto simp: format_phone_number_def Let_def)

lemma analyze_website_returns: "\<exists>d. analyze_website env website_url = Inr d"
  by (auto simp: analyze_website_def Let_def split: option.splits)

text \<open>
  Claim C10.  Called with a missing or an empty URL, \<open>analyze_website\<close> returns the empty
  dictionary, which has none of the three fields.  For every non-empty URL it returns a
  dictionary with the three fields \<open>emails\<close>, \<open>phone_numbers\<close> and \<open>social_media\<close>, whatever
  the fetches and the helpers do; when the fetch of the main page fails the three fields
  are empty.
\<close>

theorem analyze_website_fields:
  "analyze_website env None = Inr Empty_dict
   \<and> analyze_website env (Some []) = Inr Empty_dict
   \<and> keys Empty_dict = []
   \<and> (url \<noteq> [] \<longrightarrow>
        (\<exists>ci. analyze_website env (Some url) = Inr (Contact_info ci)
              \<and> keys (Contact_info ci) = [''emails'', ''phone_numbers'', ''social_media'']))
   \<and> (url \<noteq> [] \<and> make_request (http_get env) url = None \<longrightarrow>
        analyze_website env (Some url)
          = Inr (Contact_info \<lparr>emails = [], phone_numbers = [], social_media = []\<rparr>))"
  by (auto simp: analyze_website_def Let_def split: option.splits)

lemma spec_page_info:
  assumes "\<forall>t. \<exists>sm. extract_social_media env t = Inr sm"
  shows "analyze_contact_page (with_spec_pages env) l = Inr (spec_page_info env l)"
proof (cases "make_request (http_get env) l")
  case None
  then show ?thesis
    by (simp add: with_spec_pages_def spec_page_info_def analyze_contact_page_spec_failed)
next
  case (Some r)
  from assms obtain sm where "extract_social_media env (resp_text r) = Inr sm" by blast
  with Some show ?thesis
    by (simp add: with_spec_pages_def spec_page_info_def analyze_contact_page_spec_def)
qed

lemma with_spec_pages_fields:
  "http_get (with_spec_pages env) = http_get env"
  "parse_html (with_spec_pages env) = parse_html env"
  "extract_social_media (with_spec_pages env) = extract_social_media env"
  "find_contact_pages (with_spec_pages env) = find_contact_pages env"
  by (simp_all add: with_spec_pages_def)

lemma spec_page_reports:
  "set (reported_emails (spec_page_info env l)) =
     (case make_request (http_get env) l of
        None \<Rightarrow> {} | Some r \<Rightarrow> set (extract_emails (resp_text r)))"
  "format_phone_number ` set (reported_phones (spec_page_info env l)) =
     (case make_request (http_get env) l of
        None \<Rightarrow> {}
      | Some r \<Rightarrow> format_phone_number ` set (extract_phone_numbers (resp_text r)))"
  by (auto simp: spec_page_info_def reported_emails_def reported_phones_def no_content_def
        format_phone_number_idem image_image split: option.splits)

text \<open>
  Claim C8, as the code has it.  When the crawl runs to its end (the main page is fetched
  and neither the HTML parser nor a helper method raises), the returned record has no
  duplicate email and no duplicate phone; its emails are those of the main page and of the
  first three contact pages, its phones the normalised forms of theirs, and its social map
  gives for each platform the handle of the earliest page, main page first, that reported
  it.  Two phones with the same digits collapse to one entry when they have ten or eleven
  digits; phones with another number of digits are kept as written.  When the main page
  cannot be fetched the record is empty.
\<close>

theorem analyze_website_invariant:
  "(url \<noteq> [] \<and> make_request (http_get env) url = Some response
      \<and> parse_html env (resp_text response) = Inr soup
      \<and> extract_social_media env (resp_text response) = Inr sm \<and> distinct (map fst sm)
      \<and> find_contact_pages env url soup = Inr links
      \<and> (\<forall>l\<in>set (take 3 links). analyze_contact_page env l = Inr (info l)) \<longrightarrow>
      (\<exists>ci. analyze_website env (Some url) = Inr (Contact_info ci)
         \<and> distinct (emails ci) \<and> distinct (phone_numbers ci)
         \<and> set (emails ci) = set (extract_emails (resp_text response))
               \<union> (\<Union>l\<in>set (take 3 links). set (reported_emails (info l)))
         \<and> set (phone_numbers ci) = format_phone_number `
               (set (extract_phone_numbers (resp_text response))
                \<union> (\<Union>l\<in>set (take 3 links). set (reported_phones (info l))))
         \<and> (\<forall>platform. map_of (social_media ci) platform =
               first_report (map_of sm # map (\<lambda>l. map_of (reported_social (info l)))
                                            (take 3 links)) platform)))
   \<and> (strip_non_digits p = strip_non_digits q
        \<and> (length (strip_non_digits p) = 10 \<or> length (strip_non_digits p) = 11) \<longrightarrow>
        format_phone_number p = format_phone_number q)
   \<and> (url \<noteq> [] \<and> make_request (http_get env) url = None \<longrightarrow>
        analyze_website env (Some url)
          = Inr (Contact_info \<lparr>emails = [], phone_numbers = [], social_media = []\<rparr>))"
proof (intro conjI impI)
  assume a: "url \<noteq> [] \<and> make_request (http_get env) url = Some response
      \<and> parse_html env (resp_text response) = Inr soup
      \<and> extract_social_media env (resp_text response) = Inr sm \<and> distinct (map fst sm)
      \<and> find_contact_pages env url soup = Inr links
      \<and> (\<forall>l\<in>set (take 3 links). analyze_contact_page env l = Inr (info l))"
  let ?ci0 = "\<lparr>emails = extract_emails (resp_text response),
               phone_numbers = extract_phone_numbers (resp_text response),
               social_media = dict_update [] sm\<rparr>"
  let ?ci = "remove_duplicates (foldl merge_page ?ci0 (map info (take 3 links)))"
  from a have h: "url \<noteq> []" "make_request (http_get env) url = Some response"
    "parse_html env (resp_text response) = Inr soup"
    "extract_social_media env (resp_text response) = Inr sm"
    "find_contact_pages env url soup = Inr links"
    "\<forall>l\<in>set (take 3 links). analyze_contact_page env l = Inr (info l)"
    by blast+
  have r: "analyze_website env (Some url) = Inr (Contact_info ?ci)"
    by (rule analyze_website_completes [OF h])
  have sm: "map_of (dict_update [] sm) = map_of sm"
    using a by (auto simp: fun_eq_iff map_of_dict_update_distinct split: option.splits)
  have "distinct (emails ?ci)" "distinct (phone_numbers ?ci)"
    by (simp_all add: remove_duplicates_fields py_list_set_def)
  moreover have "set (emails ?ci) = set (extract_emails (resp_text response))
               \<union> (\<Union>l\<in>set (take 3 links). set (reported_emails (info l)))"
    by (simp add: remove_duplicates_fields py_list_set_def foldl_merge_page_fields)
  moreover have "set (phone_numbers ?ci) = format_phone_number `
               (set (extract_phone_numbers (resp_text response))
                \<union> (\<Union>l\<in>set (take 3 links). set (reported_phones (info l))))"
    by (simp add: remove_duplicates_fields py_list_set_def foldl_merge_page_fields image_Un
          image_UN)
  moreover have "\<forall>platform. map_of (social_media ?ci) platform =
               first_report (map_of sm # map (\<lambda>l. map_of (reported_social (info l)))
                                            (take 3 links)) platform"
    by (simp add: remove_duplicates_fields foldl_merge_page_fields sm comp_def)
  ultimately show "\<exists>ci. analyze_website env (Some url) = Inr (Contact_info ci)
         \<and> distinct (emails ci) \<and> distinct (phone_numbers ci)
         \<and> set (emails ci) = set (extract_emails (resp_text response))
               \<union> (\<Union>l\<in>set (take 3 links). set (reported_emails (info l)))
         \<and> set (phone_numbers ci) = format_phone_number `
               (set (extract_phone_numbers (resp_text response))
                \<union> (\<Union>l\<in>set (take 3 links). set (reported_phones (info l))))
         \<and> (\<forall>platform. map_of (social_media ci) platform =
               first_report (map_of sm # map (\<lambda>l. map_of (reported_social (info l)))
                                            (take 3 links)) platform)"
    using r by blast
next
  assume "strip_non_digits p = strip_non_digits q
        \<and> (length (strip_non_digits p) = 10 \<or> length (strip_non_digits p) = 11)"
  then show "format_phone_number p = format_phone_number q"
    using same_digits_same_format by blast
next
  assume "url \<noteq> [] \<and> make_request (http_get env) url = None"
  then show "analyze_website env (Some url)
          = Inr (Contact_info \<lparr>emails = [], phone_numbers = [], social_media = []\<rparr>)"
    by (simp add: analyze_website_def)
qed

text \<open>
  Claim C9, as the code has it.  A response with status 200 yields the page for
  extraction; any other status, and any exception of the request, is turned into no
  content, and \<open>_make_request\<close> has no other outcome.  A contact page whose fetch fails
  reports nothing: the loop goes on to the remaining pages with \<open>contact_info\<close> unchanged,
  and whatever \<open>contact_info\<close> holds is still there after the loop.  With the
  \<open>_analyze_contact_page\<close> of the specification, the emails and phones of the result are
  those of the main page and of the contact pages, among the first three, whose fetch
  succeeded.
\<close>

theorem fetch_failure_is_local:
  "(get url = Responds r \<and> status_code r = 200 \<longrightarrow> make_request get url = Some r)
   \<and> (get url = Raises e \<or> (get url = Responds r \<and> status_code r \<noteq> 200) \<longrightarrow>
        make_request get url = None)
   \<and> (make_request get l = None \<longrightarrow>
        analyze_contact_page_spec get esm l = Inr no_content
        \<and> merge_page ci no_content = ci
        \<and> contact_loop (analyze_contact_page_spec get esm) ci (l # rest)
            = contact_loop (analyze_contact_page_spec get esm) ci rest)
   \<and> (contact_loop acp ci links = (x, ci') \<longrightarrow> retained ci ci')
   \<and> (url \<noteq> [] \<and> make_request (http_get env) url = Some response
        \<and> parse_html env (resp_text response) = Inr soup
        \<and> (\<forall>t. \<exists>sm. extract_social_media env t = Inr sm)
        \<and> find_contact_pages env url soup = Inr pages \<longrightarrow>
        (\<exists>ci. analyze_website (with_spec_pages env) (Some url) = Inr (Contact_info ci)
           \<and> set (emails ci) = set (extract_emails (resp_text response))
                 \<union> (\<Union>l\<in>set (take 3 pages).
                       case make_request (http_get env) l of
                         None \<Rightarrow> {} | Some r \<Rightarrow> set (extract_emails (resp_text r)))
           \<and> set (phone_numbers ci) =
                 format_phone_number ` set (extract_phone_numbers (resp_text response))
                 \<union> (\<Union>l\<in>set (take 3 pages).
                       case make_request (http_get env) l of
                         None \<Rightarrow> {}
                       | Some r \<Rightarrow> format_phone_number ` set (extract_phone_numbers (resp_text r)))))"
proof (intro conjI impI)
  assume "get url = Responds r \<and> status_code r = 200"
  then show "make_request get url = Some r" by (simp add: make_request_def)
next
  assume "get url = Raises e \<or> (get url = Responds r \<and> status_code r \<noteq> 200)"
  then show "make_request get url = None" by (auto simp: make_request_def)
next
  assume f: "make_request get l = None"
  then show "analyze_contact_page_spec get esm l = Inr no_content"
    by (rule analyze_contact_page_spec_failed)
  then show "contact_loop (analyze_contact_page_spec get esm) ci (l # rest)
            = contact_loop (analyze_contact_page_spec get esm) ci rest"
    by (rule contact_loop_skip)
  show "merge_page ci no_content = ci" by (rule merge_page_no_content)
next
  assume "contact_loop acp ci links = (x, ci')"
  then show "retained ci ci'" by (rule contact_loop_retained)
next
  assume a: "url \<noteq> [] \<and> make_request (http_get env) url = Some response
        \<and> parse_html env (resp_text response) = Inr soup
        \<and> (\<forall>t. \<exists>sm. extract_social_media env t = Inr sm)
        \<and> find_contact_pages env url soup = Inr pages"
  then obtain sm where sm: "extract_social_media env (resp_text response) = Inr sm" by blast
  let ?ci0 = "\<lparr>emails = extract_emails (resp_text response),
               phone_numbers = extract_phone_numbers (resp_text response),
               social_media = dict_update [] sm\<rparr>"
  let ?ci = "remove_duplicates (foldl merge_page ?ci0 (map (spec_page_info env) (take 3 pages)))"
  from a have h: "url \<noteq> []" "make_request (http_get (with_spec_pages env)) url = Some response"
    "parse_html (with_spec_pages env) (resp_text response) = Inr soup"
    "find_contact_pages (with_spec_pages env) url soup = Inr pages"
    unfolding with_spec_pages_fields by blast+
  have hs: "extract_social_media (with_spec_pages env) (resp_text response) = Inr sm"
    unfolding with_spec_pages_fields by (rule sm)
  have hp: "\<forall>l\<in>set (take 3 pages).
          analyze_contact_page (with_spec_pages env) l = Inr (spec_page_info env l)"
    using a spec_page_info by blast
  have r: "analyze_website (with_spec_pages env) (Some url) = Inr (Contact_info ?ci)"
    by (rule analyze_website_completes [OF h(1,2,3) hs h(4) hp])
  have "set (emails ?ci) = set (extract_emails (resp_text response))
                 \<union> (\<Union>l\<in>set (take 3 pages).
                       case make_request (http_get env) l of
                         None \<Rightarrow> {} | Some r \<Rightarrow> set (extract_emails (resp_text r)))"
    by (simp add: remove_duplicates_fields py_list_set_def foldl_merge_page_fields
          spec_page_reports)
  moreover have "set (phone_numbers ?ci) =
                 format_phone_number ` set (extract_phone_numbers (resp_text response))
                 \<union> (\<Union>l\<in>set (take 3 pages).
                       case make_request (http_get env) l of
                         None \<Rightarrow> {}
                       | Some r \<Rightarrow> format_phone_number ` set (extract_phone_numbers (resp_text r)))"
    by (simp add: remove_duplicates_fields py_list_set_def foldl_merge_page_fields image_Un
          image_UN spec_page_reports)
  ultimately show "\<exists>ci. analyze_website (with_spec_pages env) (Some url) = Inr (Contact_info ci)
           \<and> set (emails ci) = set (extract_emails (resp_text response))
                 \<union> (\<Union>l\<in>set (take 3 pages).
                       case make_request (http_get env) l of
                         None \<Rightarrow> {} | Some r \<Rightarrow> set (extract_emails (resp_text r)))
           \<and> set (phone_numbers ci) =
                 format_phone_number ` set (extract_phone_numbers (resp_text response))
                 \<union> (\<Union>l\<in>set (take 3 pages).
                       case make_request (http_get env) l of
                         None \<Rightarrow> {}
                       | Some r \<Rightarrow> format_phone_number ` set (extract_phone_numbers (resp_text r)))"
    using r by blast
qed

lemma demo_requests:
  "make_request demo_get ''https://acme.com''
     = Some \<lparr>status_code = 200, resp_text = demo_root_text\<rparr>"
  "make_request demo_get ''https://acme.com/about'' = None"
  "make_request demo_get ''https://acme.com/contact-us''
     = Some \<lparr>status_code = 200, resp_text = demo_contact_text\<rparr>"
  by (simp_all add: make_request_def demo_get_def)

lemma demo_base_fields:
  "http_get demo_base = demo_get"
  "parse_html demo_base = (\<lambda>text. Inr text)"
  "extract_social_media demo_base = demo_social"
  "find_contact_pages demo_base
     = (\<lambda>url soup. Inr [''https://acme.com/about'', ''https://acme.com/contact-us''])"
  by (simp_all add: demo_base_def)

lemma demo_pages:
  "spec_page_info demo_base ''https://acme.com/about'' = no_content"
  "spec_page_info demo_base ''https://acme.com/contact-us'' =
     \<lparr>page_emails = Some [''info@acme.com'', ''sales@acme.com''],
      page_phone_numbers = Some [''+44 123.456.7890'', ''(123) 456-7890'', ''(123) 456-7890''],
      page_social_media = Some [(''twitter'', ''other''), (''facebook'', ''acme'')]\<rparr>"
  by (simp_all add: spec_page_info_def demo_base_fields demo_requests demo_contact_signals
        demo_formats demo_social_def demo_texts_differ)

text \<open>
  The claim C8 as stated fails: the main page and the contact page show the same twelve
  digits with different separators, and both strings are in the returned record.
\<close>

theorem phones_not_collapsed_counterexample:
  "(\<exists>ci. analyze_website demo_env (Some ''https://acme.com'') = Inr (Contact_info ci)
         \<and> ''+44 123-456-7890'' \<in> set (phone_numbers ci)
         \<and> ''+44 123.456.7890'' \<in> set (phone_numbers ci))
   \<and> extract_phone_numbers demo_root_text = [''+44 123-456-7890'']
   \<and> extract_phone_numbers demo_contact_text
        = [''+44 123.456.7890'', ''123.456.7890'', ''(123) 456 7890'']
   \<and> ''+44 123-456-7890'' \<noteq> ''+44 123.456.7890''
   \<and> strip_non_digits ''+44 123-456-7890'' = strip_non_digits ''+44 123.456.7890''"
proof -
  have "''+44 123-456-7890'' \<noteq> ''+44 123.456.7890''" by simp
  moreover have "strip_non_digits ''+44 123-456-7890'' = strip_non_digits ''+44 123.456.7890''"
    by (simp add: strip_non_digits_def is_digit_def in_range_def)
  moreover have "\<exists>ci. analyze_website demo_env (Some ''https://acme.com'') = Inr (Contact_info ci)
         \<and> ''+44 123-456-7890'' \<in> set (phone_numbers ci)
         \<and> ''+44 123.456.7890'' \<in> set (phone_numbers ci)"
    by (simp add: demo_result)
  ultimately show ?thesis
    using demo_root_signals(2) demo_contact_signals(2) by (intro conjI)
qed

theorem analyze_website_invariant_witness:
  "(\<exists>ci. analyze_website demo_env (Some ''https://acme.com'') = Inr (Contact_info ci)
         \<and> distinct (emails ci) \<and> distinct (phone_numbers ci)
         \<and> set (emails ci) = {''info@acme.com'', ''sales@acme.com''}
         \<and> set (phone_numbers ci)
              = {''+44 123-456-7890'', ''+44 123.456.7890'', ''(123) 456-7890''}
         \<and> map_of (social_media ci) ''twitter'' = Some ''acme''
         \<and> map_of (social_media ci) ''facebook'' = Some ''acme'')
   \<and> strip_non_digits ''123.456.7890'' = strip_non_digits ''(123) 456 7890''
   \<and> length (strip_non_digits ''123.456.7890'') = 10
   \<and> format_phone_number ''123.456.7890'' = format_phone_number ''(123) 456 7890''
   \<and> make_request (http_get failing_env) ''https://acme.com'' = None
   \<and> analyze_website failing_env (Some ''https://acme.com'')
        = Inr (Contact_info \<lparr>emails = [], phone_numbers = [], social_media = []\<rparr>)"
proof -
  let ?url = "''https://acme.com''"
  let ?links = "[''https://acme.com/about'', ''https://acme.com/contact-us'']"
  let ?resp = "\<lparr>status_code = 200, resp_text = demo_root_text\<rparr>"
  have soc: "\<forall>t. \<exists>sm. extract_social_media demo_base t = Inr sm"
    by (simp add: demo_base_fields demo_social_def)
  have h: "?url \<noteq> [] \<and> make_request (http_get demo_env) ?url = Some ?resp
      \<and> parse_html demo_env (resp_text ?resp) = Inr demo_root_text
      \<and> extract_social_media demo_env (resp_text ?resp) = Inr [(''twitter'', ''acme'')]
      \<and> distinct (map fst [(''twitter'', ''acme'')])
      \<and> find_contact_pages demo_env ?url demo_root_text = Inr ?links
      \<and> (\<forall>l\<in>set (take 3 ?links).
            analyze_contact_page demo_env l = Inr (spec_page_info demo_base l))"
    using spec_page_info [OF soc]
    by (simp add: demo_env_def with_spec_pages_fields demo_base_fields demo_requests
          demo_social_def)
  from analyze_website_invariant
         [of ?url demo_env ?resp demo_root_text "[(''twitter'', ''acme'')]" ?links
             "spec_page_info demo_base", THEN conjunct1, THEN mp, OF h]
  obtain ci where ci: "analyze_website demo_env (Some ?url) = Inr (Contact_info ci)"
    "distinct (emails ci)" "distinct (phone_numbers ci)"
    "set (emails ci) = set (extract_emails (resp_text ?resp))
        \<union> (\<Union>l\<in>set (take 3 ?links). set (reported_emails (spec_page_info demo_base l)))"
    "set (phone_numbers ci) = format_phone_number `
        (set (extract_phone_numbers (resp_text ?resp))
         \<union> (\<Union>l\<in>set (take 3 ?links). set (reported_phones (spec_page_info demo_base l))))"
    "\<forall>platform. map_of (social_media ci) platform =
        first_report (map_of [(''twitter'', ''acme'')]
                      # map (\<lambda>l. map_of (reported_social (spec_page_info demo_base l)))
                          (take 3 ?links)) platform"
    by (elim exE conjE) (rule that; assumption)
  have e: "set (emails ci) = {''info@acme.com'', ''sales@acme.com''}"
    unfolding ci(4)
    by (simp add: demo_root_signals demo_pages reported_emails_def no_content_def) blast
  have p: "set (phone_numbers ci)
             = {''+44 123-456-7890'', ''+44 123.456.7890'', ''(123) 456-7890''}"
  proof -
    have "set (extract_phone_numbers (resp_text ?resp))
            \<union> (\<Union>l\<in>set (take 3 ?links). set (reported_phones (spec_page_info demo_base l)))
          = set [''+44 123-456-7890'', ''+44 123.456.7890'', ''(123) 456-7890'']"
      by (simp add: demo_root_signals demo_pages reported_phones_def no_content_def) blast
    then have "set (phone_numbers ci)
                 = format_phone_number `
                     set [''+44 123-456-7890'', ''+44 123.456.7890'', ''(123) 456-7890'']"
      using ci(5) by simp
    also have "\<dots> = set (map format_phone_number
                     [''+44 123-456-7890'', ''+44 123.456.7890'', ''(123) 456-7890''])"
      by (simp only: set_map)
    also have "\<dots> = {''+44 123-456-7890'', ''+44 123.456.7890'', ''(123) 456-7890''}"
      by (simp add: demo_formats)
    finally show ?thesis .
  qed
  have t: "map_of (social_media ci) ''twitter'' = Some ''acme''"
    and f: "map_of (social_media ci) ''facebook'' = Some ''acme''"
    by (simp_all add: ci(6) demo_pages reported_social_def no_content_def)
  have d1: "strip_non_digits ''123.456.7890'' = strip_non_digits ''(123) 456 7890''"
    and d2: "length (strip_non_digits ''123.456.7890'') = 10"
    by (simp_all add: strip_non_digits_def is_digit_def in_range_def)
  have c: "format_phone_number ''123.456.7890'' = format_phone_number ''(123) 456 7890''"
    by (rule analyze_website_invariant
          [where p = "''123.456.7890''" and q = "''(123) 456 7890''",
           THEN conjunct2, THEN conjunct1, THEN mp]) (use d1 d2 in blast)
  have m: "make_request (http_get failing_env) ?url = None"
    by (simp add: make_request_def failing_env_def)
  have z: "analyze_website failing_env (Some ?url)
        = Inr (Contact_info \<lparr>emails = [], phone_numbers = [], social_media = []\<rparr>)"
    by (rule analyze_website_invariant
          [where url = ?url and env = failing_env, THEN conjunct2, THEN conjunct2, THEN mp])
      (simp add: m)
  show ?thesis
    by (intro conjI exI [of _ ci]) (fact ci(1) ci(2) ci(3) e p t f d1 d2 c m z)+
qed

text \<open>
  The claim C9 as stated fails: a response with status 203, a 2xx status, and an email in
  its body is treated as a failure, and the analysis returns the empty record.
\<close>

theorem fetch_2xx_counterexample:
  "non_authoritative_get ''https://acme.com''
     = Responds \<lparr>status_code = 203, resp_text = ''info@acme.com''\<rparr>
   \<and> (200::nat) \<le> 203 \<and> (203::nat) < 300
   \<and> extract_emails ''info@acme.com'' = [''info@acme.com'']
   \<and> make_request non_authoritative_get ''https://acme.com'' = None
   \<and> analyze_website non_authoritative_env (Some ''https://acme.com'')
        = Inr (Contact_info \<lparr>emails = [], phone_numbers = [], social_media = []\<rparr>)"
proof -
  have g: "non_authoritative_get ''https://acme.com''
     = Responds \<lparr>status_code = 203, resp_text = ''info@acme.com''\<rparr>"
    by (simp add: non_authoritative_get_def)
  have e: "extract_emails ''info@acme.com'' = [''info@acme.com'']"
    by (simp add: eval_extract)
  have m: "make_request non_authoritative_get ''https://acme.com'' = None"
    by (simp add: make_request_def non_authoritative_get_def)
  have a: "analyze_website non_authoritative_env (Some ''https://acme.com'')
        = Inr (Contact_info \<lparr>emails = [], phone_numbers = [], social_media = []\<rparr>)"
    by (simp add: analyze_website_def non_authoritative_env_def m)
  have n: "(200::nat) \<le> 203" "(203::nat) < 300" by simp_all
  show ?thesis by (intro conjI) (fact g n e m a)+
qed

theorem fetch_failure_is_local_witness:
  "demo_get ''https://acme.com'' = Responds \<lparr>status_code = 200, resp_text = demo_root_text\<rparr>
   \<and> make_request demo_get ''https://acme.com''
        = Some \<lparr>status_code = 200, resp_text = demo_root_text\<rparr>
   \<and> demo_get ''https://acme.com/about''
        = Responds \<lparr>status_code = 404, resp_text = ''Not found: webmaster@acme.com''\<rparr>
   \<and> make_request demo_get ''https://acme.com/about'' = None
   \<and> demo_get ''https://acme.com/team'' = Raises Exception
   \<and> make_request demo_get ''https://acme.com/team'' = None
   \<and> contact_loop (analyze_contact_page_spec demo_get demo_social)
         \<lparr>emails = [''info@acme.com''], phone_numbers = [], social_media = []\<rparr>
         [''https://acme.com/about'', ''https://acme.com/contact-us'']
       = contact_loop (analyze_contact_page_spec demo_get demo_social)
         \<lparr>emails = [''info@acme.com''], phone_numbers = [], social_media = []\<rparr>
         [''https://acme.com/contact-us'']
   \<and> (\<exists>ci. analyze_website demo_env (Some ''https://acme.com'') = Inr (Contact_info ci)
          \<and> set (emails ci) = {''info@acme.com'', ''sales@acme.com''}
          \<and> set (phone_numbers ci)
               = {''+44 123-456-7890'', ''+44 123.456.7890'', ''(123) 456-7890''})
   \<and> retained \<lparr>emails = [''info@acme.com''], phone_numbers = [], social_media = []\<rparr>
        (snd (contact_loop (analyze_contact_page_spec demo_get demo_social)
               \<lparr>emails = [''info@acme.com''], phone_numbers = [], social_media = []\<rparr>
               [''https://acme.com/about'', ''https://acme.com/contact-us'']))"
proof -
  let ?url = "''https://acme.com''"
  let ?about = "''https://acme.com/about''"
  let ?team = "''https://acme.com/team''"
  let ?links = "[''https://acme.com/about'', ''https://acme.com/contact-us'']"
  let ?resp = "\<lparr>status_code = 200, resp_text = demo_root_text\<rparr>"
  let ?nf = "\<lparr>status_code = 404, resp_text = ''Not found: webmaster@acme.com''\<rparr>"
  let ?ci = "\<lparr>emails = [''info@acme.com''], phone_numbers = [], social_media = []\<rparr>"
  let ?acp = "analyze_contact_page_spec demo_get demo_social"
  have g1: "demo_get ?url = Responds ?resp" and g2: "demo_get ?about = Responds ?nf"
    and g3: "demo_get ?team = Raises Exception"
    by (simp_all add: demo_get_def)
  have m1: "make_request demo_get ?url = Some ?resp"
    by (rule fetch_failure_is_local [THEN conjunct1, THEN mp]) (simp add: g1)
  have m2: "make_request demo_get ?about = None"
    by (rule fetch_failure_is_local
          [where r = ?nf and e = Exception, THEN conjunct2, THEN conjunct1, THEN mp])
      (simp add: g2)
  have m3: "make_request demo_get ?team = None"
    by (rule fetch_failure_is_local
          [where r = ?nf and e = Exception, THEN conjunct2, THEN conjunct1, THEN mp])
      (simp add: g3)
  have l: "contact_loop ?acp ?ci ?links = contact_loop ?acp ?ci [''https://acme.com/contact-us'']"
    using fetch_failure_is_local
      [where get = demo_get and l = ?about and esm = demo_social and ci = ?ci
         and rest = "[''https://acme.com/contact-us'']",
       THEN conjunct2, THEN conjunct2, THEN conjunct1, THEN mp, OF m2]
    by (elim conjE)
  have r: "retained ?ci (snd (contact_loop ?acp ?ci ?links))"
    by (rule fetch_failure_is_local
          [where acp = ?acp and ci = ?ci and links = ?links
             and x = "fst (contact_loop ?acp ?ci ?links)",
           THEN conjunct2, THEN conjunct2, THEN conjunct2, THEN conjunct1, THEN mp])
      simp
  have soc: "\<forall>t. \<exists>sm. extract_social_media demo_base t = Inr sm"
    by (simp add: demo_base_fields demo_social_def)
  have h: "?url \<noteq> [] \<and> make_request (http_get demo_base) ?url = Some ?resp
        \<and> parse_html demo_base (resp_text ?resp) = Inr demo_root_text
        \<and> (\<forall>t. \<exists>sm. extract_social_media demo_base t = Inr sm)
        \<and> find_contact_pages demo_base ?url demo_root_text = Inr ?links"
    using soc by (simp add: demo_base_fields demo_requests)
  from fetch_failure_is_local
         [where url = ?url and env = demo_base and response = ?resp and soup = demo_root_text
            and pages = ?links,
          THEN conjunct2, THEN conjunct2, THEN conjunct2, THEN conjunct2, THEN mp, OF h]
  obtain ci where ci: "analyze_website (with_spec_pages demo_base) (Some ?url) = Inr (Contact_info ci)"
    "set (emails ci) = set (extract_emails (resp_text ?resp))
        \<union> (\<Union>l\<in>set (take 3 ?links).
              case make_request (http_get demo_base) l of
                None \<Rightarrow> {} | Some r \<Rightarrow> set (extract_emails (resp_text r)))"
    "set (phone_numbers ci) =
        format_phone_number ` set (extract_phone_numbers (resp_text ?resp))
        \<union> (\<Union>l\<in>set (take 3 ?links).
              case make_request (http_get demo_base) l of
                None \<Rightarrow> {}
              | Some r \<Rightarrow> format_phone_number ` set (extract_phone_numbers (resp_text r)))"
    by (elim exE conjE) (rule that; assumption)
  have c1: "analyze_website demo_env (Some ?url) = Inr (Contact_info ci)"
    using ci(1) by (simp add: demo_env_def)
  have c2: "set (emails ci) = {''info@acme.com'', ''sales@acme.com''}"
    unfolding ci(2)
    by (simp add: demo_base_fields demo_requests demo_root_signals demo_contact_signals) blast
  have c3: "set (phone_numbers ci)
               = {''+44 123-456-7890'', ''+44 123.456.7890'', ''(123) 456-7890''}"
    unfolding ci(3)
    by (simp add: demo_base_fields demo_requests demo_root_signals demo_contact_signals
          demo_formats) blast
  show ?thesis
    by (intro conjI exI [of _ ci]) (fact g1 m1 g2 m2 g3 m3 l c1 c2 c3 r)+
qed

theorem analyze_website_fields_witness:
  "''https://acme.com'' \<noteq> []
   \<and> make_request (http_get failing_env) ''https://acme.com'' = None
   \<and> analyze_website failing_env (Some ''https://acme.com'')
        = Inr (Contact_info \<lparr>emails = [], phone_numbers = [], social_media = []\<rparr>)
   \<and> (\<exists>ci. analyze_website demo_env (Some ''https://acme.com'') = Inr (Contact_info ci)
          \<and> keys (Contact_info ci) = [''emails'', ''phone_numbers'', ''social_media''])
   \<and> analyze_website failing_env None = Inr Empty_dict
   \<and> analyze_website failing_env (Some []) = Inr Empty_dict"
proof -
  have n: "''https://acme.com'' \<noteq> []" by simp
  have m: "make_request (http_get failing_env) ''https://acme.com'' = None"
    by (simp add: make_request_def failing_env_def)
  have a: "analyze_website failing_env (Some ''https://acme.com'')
        = Inr (Contact_info \<lparr>emails = [], phone_numbers = [], social_media = []\<rparr>)"
    using analyze_website_fields [where url = "''https://acme.com''" and env = failing_env] n m
    by (elim conjE) simp
  have b: "\<exists>ci. analyze_website demo_env (Some ''https://acme.com'') = Inr (Contact_info ci)
          \<and> keys (Contact_info ci) = [''emails'', ''phone_numbers'', ''social_media'']"
    using analyze_website_fields [where url = "''https://acme.com''" and env = demo_env] n
    by (elim conjE) simp
  have c: "analyze_website failing_env None = Inr Empty_dict"
    by (rule analyze_website_fields [THEN conjunct1])
  have d: "analyze_website failing_env (Some []) = Inr Empty_dict"
    by (rule analyze_website_fields [THEN conjunct2, THEN conjunct1])
  show ?thesis by (intro conjI) (fact n m a b c d)+
qed

lemma detect_no_well_formed:
  assumes "\<forall>e\<in>set es. \<not> well_formed e"
  shows "detect_email_pattern es = Inr None"
proof -
  from assms have "filter well_formed es = []" by (simp add: filter_empty_conv)
  then show ?thesis by (simp add: detect_email_pattern_eq)
qed

lemma detect_mixed_domains:
  assumes "e1 \<in> set es" "e2 \<in> set es" "well_formed e1" "well_formed e2"
    "domain_part e1 \<noteq> domain_part e2"
  shows "detect_email_pattern es = Inr None"
proof -
  let ?D = "domain_part ` set (filter well_formed es)"
  have "{domain_part e1, domain_part e2} \<subseteq> ?D" using assms by auto
  moreover have "finite ?D" by simp
  ultimately have "card {domain_part e1, domain_part e2} \<le> card ?D"
    by (rule card_mono [rotated])
  with assms(5) have "card ?D \<noteq> 1" by simp
  then show ?thesis by (simp add: detect_email_pattern_eq)
qed

lemma generate_likely_email_returns: "\<exists>r. generate_likely_email name c w ke = Inr r"
  using detect_known_total [of ke]
  by (auto simp: generate_likely_email_eq split: option.splits)

text \<open>
  Claim C1.  Pattern detection returns, for every list of strings, \<open>None\<close> or one of the
  five categories, and never raises; it returns \<open>None\<close> when no string of the list has
  exactly one \<open>@\<close> and when two well-formed emails have different domains.
  \<open>generate_likely_email\<close> always returns, and returns \<open>None\<close> when the name has fewer
  than two tokens or the website has no parseable domain.  \<open>analyze_website\<close> always
  returns a dictionary, whatever the request, the parser and the helper methods do.
\<close>

theorem core_never_raises:
  "(\<exists>r. detect_email_pattern es = Inr r \<and> (r = None \<or> (\<exists>p\<in>categories. r = Some p)))
   \<and> ((\<forall>e\<in>set es. \<not> well_formed e) \<longrightarrow> detect_email_pattern es = Inr None)
   \<and> ((\<exists>e1\<in>set es. \<exists>e2\<in>set es.
          well_formed e1 \<and> well_formed e2 \<and> domain_part e1 \<noteq> domain_part e2) \<longrightarrow>
        detect_email_pattern es = Inr None)
   \<and> (\<exists>r. generate_likely_email name c w ke = Inr r)
   \<and> (length (name_tokens name) < 2 \<longrightarrow> generate_likely_email name c w ke = Inr None)
   \<and> (website_domain w = None \<longrightarrow> generate_likely_email name c w ke = Inr None)
   \<and> (\<exists>d. analyze_website env website_url = Inr d)"
proof (intro conjI impI)
  show "\<exists>r. detect_email_pattern es = Inr r \<and> (r = None \<or> (\<exists>p\<in>categories. r = Some p))"
    by (rule detect_email_pattern_total)
next
  assume "\<forall>e\<in>set es. \<not> well_formed e"
  then show "detect_email_pattern es = Inr None" by (rule detect_no_well_formed)
next
  assume "\<exists>e1\<in>set es. \<exists>e2\<in>set es.
          well_formed e1 \<and> well_formed e2 \<and> domain_part e1 \<noteq> domain_part e2"
  then show "detect_email_pattern es = Inr None" using detect_mixed_domains by blast
next
  show "\<exists>r. generate_likely_email name c w ke = Inr r"
    by (rule generate_likely_email_returns)
next
  assume "length (name_tokens name) < 2"
  then show "generate_likely_email name c w ke = Inr None"
    by (simp add: generate_likely_email_eq)
next
  assume "website_domain w = None"
  then show "generate_likely_email name c w ke = Inr None"
    by (simp add: generate_likely_email_eq)
next
  show "\<exists>d. analyze_website env website_url = Inr d"
    by (rule analyze_website_returns)
qed

theorem core_never_raises_witness:
  "\<not> well_formed ''no-at-sign'' \<and> \<not> well_formed ''a@b@c.com''
   \<and> detect_email_pattern [''no-at-sign'', ''a@b@c.com''] = Inr None
   \<and> well_formed ''a@x.com'' \<and> well_formed ''b@y.com''
   \<and> domain_part ''a@x.com'' \<noteq> domain_part ''b@y.com''
   \<and> detect_email_pattern [''a@x.com'', ''b@y.com''] = Inr None
   \<and> length (name_tokens ''Solo'') < 2
   \<and> generate_likely_email ''Solo'' ''Acme'' ''https://acme.com''
        (Some [''a@x.com'', ''b@y.com'']) = Inr None
   \<and> website_domain ''ftp://acme.com'' = None
   \<and> generate_likely_email ''Jane Doe'' ''Acme'' ''ftp://acme.com'' None = Inr None
   \<and> (\<exists>d. analyze_website failing_env (Some ''https://acme.com'') = Inr d)"
proof -
  let ?bad = "[''no-at-sign'', ''a@b@c.com'']"
  let ?two = "[''a@x.com'', ''b@y.com'']"
  have w1: "\<not> well_formed ''no-at-sign''" and w2: "\<not> well_formed ''a@b@c.com''"
    and w3: "well_formed ''a@x.com''" and w4: "well_formed ''b@y.com''"
    and dd: "domain_part ''a@x.com'' \<noteq> domain_part ''b@y.com''"
    by (simp_all add: split_at_simps)
  have b: "\<forall>e\<in>set ?bad. \<not> well_formed e" using w1 w2 by simp
  have r1: "detect_email_pattern ?bad = Inr None"
    by (rule core_never_raises [THEN conjunct2, THEN conjunct1, THEN mp, OF b])
  have t: "\<exists>e1\<in>set ?two. \<exists>e2\<in>set ?two.
          well_formed e1 \<and> well_formed e2 \<and> domain_part e1 \<noteq> domain_part e2"
    using w3 w4 dd by simp
  have r2: "detect_email_pattern ?two = Inr None"
    by (rule core_never_raises [THEN conjunct2, THEN conjunct2, THEN conjunct1, THEN mp, OF t])
  have n: "length (name_tokens ''Solo'') < 2" by (simp add: name_tokens_examples)
  have r3: "generate_likely_email ''Solo'' ''Acme'' ''https://acme.com'' (Some ?two) = Inr None"
    by (rule core_never_raises [THEN conjunct2, THEN conjunct2, THEN conjunct2, THEN conjunct2,
          THEN conjunct1, THEN mp, OF n])
  have d: "website_domain ''ftp://acme.com'' = None"
    by (simp add: website_domain_def re_search_def match_at_def domain_pattern_def)
  have r4: "generate_likely_email ''Jane Doe'' ''Acme'' ''ftp://acme.com'' None = Inr None"
    by (rule core_never_raises [THEN conjunct2, THEN conjunct2, THEN conjunct2, THEN conjunct2,
          THEN conjunct2, THEN conjunct1, THEN mp, OF d])
  have r5: "\<exists>d. analyze_website failing_env (Some ''https://acme.com'') = Inr d"
    by (rule core_never_raises [THEN conjunct2, THEN conjunct2, THEN conjunct2, THEN conjunct2,
          THEN conjunct2, THEN conjunct2])
  show ?thesis by (intro conjI) (fact w1 w2 r1 w3 w4 dd r2 n r3 d r4 r5)+
qed

end
